theory Spec2Isabelle
  imports Main "HOL-Library.Word"
begin

unbundle bit_operations_syntax
section \<open>Tile layout (package layout)\<close>

text \<open>
  Go's \<open>uint64\<close> is a 64-bit word: \<open>*\<close> wraps around, \<open>/\<close> and \<open>%\<close> are the unsigned
  quotient and remainder. A shift \<open>x >> s\<close> with an unsigned count \<open>s\<close> is
  \<open>drop_bit (unat s) x\<close>: it is 0 once the count reaches the width, as in Go.
  \<open>uint\<close> is taken at its width on 64-bit targets.
\<close>

type_synonym uint64 = "64 word"
type_synonym uint = "64 word"

text \<open>
  \<^verbatim>\<open>func partialTileSize(level, index, logSize uint64) uint64\<close>
\<close>

definition partialTileSize :: "uint64 \<Rightarrow> uint64 \<Rightarrow> uint64 \<Rightarrow> uint64" where
  "partialTileSize level index logSize =
     (let sizeAtLevel = drop_bit (unat (level * 8)) logSize;
          fullTiles = sizeAtLevel div 256
      in if index < fullTiles then 0 else sizeAtLevel mod 256)"

text \<open>
  \<^verbatim>\<open>func NodeCoordsToTileAddress(treeLevel, treeIndex uint64) (uint64, uint64, uint, uint64)\<close>

  In \<open>uint64(1 << (8 - treeLevel%8))\<close> the constant 1 takes the type \<open>uint64\<close>, and the
  count \<open>8 - treeLevel%8\<close> is a \<open>uint64\<close>.
\<close>

definition NodeCoordsToTileAddress ::
  "uint64 \<Rightarrow> uint64 \<Rightarrow> uint64 \<times> uint64 \<times> uint \<times> uint64" where
  "NodeCoordsToTileAddress treeLevel treeIndex =
     (let tileRowWidth = push_bit (unat (8 - treeLevel mod 8)) (1 :: uint64);
          tileLevel = treeLevel div 8;
          tileIndex = treeIndex div tileRowWidth;
          nodeLevel = (ucast (treeLevel mod 8) :: uint);
          nodeIndex = treeIndex mod tileRowWidth
      in (tileLevel, tileIndex, nodeLevel, nodeIndex))"

section \<open>Values shared by the packages\<close>

type_synonym uint8 = "8 word"
type_synonym bytes = "8 word list"

text \<open>
  Go's \<open>error\<close> values. \<open>Error\<close> is an error of a collaborator (storage, network, the
  buffer library), known by its text; the other constructors are the errors that the code
  builds with \<open>fmt.Errorf\<close>, one per format string, with the values formatted into it:
  \<^item> \<open>ErrSize err\<close>: \<open>"size: %v"\<close>;
  \<^item> \<open>ErrTargetSize t s\<close>: \<open>"target size %d > source size %d"\<close>;
  \<^item> \<open>ErrMigrationFailed err\<close>: \<open>"migration failed: %v"\<close>;
  \<^item> \<open>ErrRootMismatch r s\<close>:
    \<open>"migration completed, but local root hash %x != source root hash %x"\<close>;
  \<^item> \<open>ErrFetch i p err\<close>: \<open>"failed to fetch entrybundle %d (p=%d): %v"\<close>;
  \<^item> \<open>ErrStore i p err\<close>: \<open>"failed to store entrybundle %d (p=%d): %v"\<close>.
\<close>

datatype error =
    Error string
  | ErrSize error
  | ErrTargetSize uint64 uint64
  | ErrMigrationFailed error
  | ErrRootMismatch bytes bytes
  | ErrFetch uint64 uint8 error
  | ErrStore uint64 uint8 error

text \<open>
  A call that completes either returns (\<open>Done\<close>) or panics (\<open>Panic\<close>); a call that can
  block has an \<open>option\<close> around that, \<open>None\<close> meaning that it blocks for ever.
\<close>

datatype 'a outcome = Done 'a | Panic

section \<open>The deduplicating queue (package storage)\<close>

text \<open>
  The queue's objects live on the heap and are shared by pointer: a \<open>*tessera.Entry\<close> is
  an address into the store \<open>entries\<close>, a \<open>*queueItem\<close> an address into \<open>items\<close> (its
  position; \<open>newEntry\<close> allocates at the end). Pointers are taken to be non-nil.

\<close>

type_synonym addr = nat

text \<open>
  Modelled from the spec: the declaration of \<open>tessera.Entry\<close> is missing. The queue
  uses two of its accessors: \<open>Identity()\<close>, the deterministic byte string used as the
  dedup key, and \<open>Index()\<close>, a \<open>*uint64\<close> that is nil until the entry has been assigned
  its leaf index.
\<close>

record Entry =
  Identity :: bytes
  Index :: "uint64 option"

text \<open>
  \<open>tessera.IndexFuture\<close> is \<open>func() (uint64, error)\<close>. Two kinds of such functions occur:
  the future \<open>e.f\<close> of a queue item, built by \<open>sync.OnceValues\<close> in \<open>newEntry\<close> (one per
  item, so it is identified by the item's address), and the function literal that
  \<open>notify\<close> sends on the item's channel, with its captured variables \<open>err\<close> and \<open>e\<close>.
\<close>

datatype IndexFuture = OnceFuture addr

datatype notifyFn = NotifyFn "error option" addr

text \<open>A Go channel of capacity 1: the values sent and not yet received, and whether it is closed.\<close>

record chan =
  buffer :: "notifyFn list"
  closed :: bool

text \<open>
  \<^verbatim>\<open>type queueItem struct { entry *tessera.Entry; c chan tessera.IndexFuture; f tessera.IndexFuture }\<close>

  The field \<open>f\<close> holds the state of the \<open>sync.OnceValues\<close> wrapper: \<open>None\<close> until the wrapped
  function has run, then what it did (the values it returned, or that it panicked).
\<close>

record queueItem =
  entry :: addr
  c :: chan
  f :: "(uint64 \<times> error option) outcome option"

text \<open>
  \<^verbatim>\<open>type FlushFunc func(ctx context.Context, entries []*tessera.Entry) error\<close>

  The flush function is supplied by the storage implementation. It receives pointers, so it
  can write the entries (it is expected to assign their indices); it is given the store and
  returns the store it leaves behind.
\<close>

type_synonym FlushFunc = "(addr \<Rightarrow> Entry) \<Rightarrow> addr list \<Rightarrow> error option \<times> (addr \<Rightarrow> Entry)"

text \<open>
  The state: the two heaps, and of the \<open>Queue\<close> the items pushed into \<open>buf\<close> and not yet
  flushed, the batches on the channel \<open>work\<close> (capacity 1) between the buffer and the worker
  goroutine, and the map \<open>inFlight\<close>, keyed by \<open>string(e.Identity())\<close>. The field \<open>flush\<close>
  of the \<open>Queue\<close> is a parameter of \<open>doFlush\<close>: an external function need not behave the
  same way at every call.
\<close>

record world =
  entries :: "addr \<Rightarrow> Entry"
  items :: "queueItem list"
  buf :: "addr list"
  work :: "addr list list"
  inFlight :: "bytes \<rightharpoonup> addr"

definition NewQueue :: "(addr \<Rightarrow> Entry) \<Rightarrow> world" where
  "NewQueue ents = \<lparr>entries = ents, items = [], buf = [], work = [], inFlight = Map.empty\<rparr>"

subsection \<open>Channel operations\<close>

definition make_chan :: chan where
  "make_chan = \<lparr>buffer = [], closed = False\<rparr>"

text \<open>Sending on a closed channel panics; sending on a full one blocks.\<close>

definition send :: "notifyFn \<Rightarrow> chan \<Rightarrow> chan outcome option" where
  "send v ch =
     (if closed ch then Some Panic
      else if length (buffer ch) < 1 then Some (Done (ch\<lparr>buffer := buffer ch @ [v]\<rparr>))
      else None)"

definition close :: "chan \<Rightarrow> chan outcome" where
  "close ch = (if closed ch then Panic else Done (ch\<lparr>closed := True\<rparr>))"

text \<open>
  Receiving takes the oldest buffered value; from a closed and drained channel it yields the
  zero value (a nil function, \<open>None\<close>); from an open and empty one it blocks.
\<close>

definition recv :: "chan \<Rightarrow> (notifyFn option \<times> chan) option" where
  "recv ch =
     (case buffer ch of
        v # vs \<Rightarrow> Some (Some v, ch\<lparr>buffer := vs\<rparr>)
      | [] \<Rightarrow> if closed ch then Some (None, ch) else None)"

subsection \<open>Queue items and their futures\<close>

text \<open>\<^verbatim>\<open>func newEntry(data *tessera.Entry) *queueItem\<close>\<close>

definition newEntry :: "addr \<Rightarrow> queueItem" where
  "newEntry data = \<lparr>entry = data, c = make_chan, f = None\<rparr>"

text \<open>
  \<^verbatim>\<open>func (e *queueItem) notify(err error)\<close>: \<open>e.c <- func() ...; close(e.c)\<close>.
\<close>

definition notify :: "addr \<Rightarrow> error option \<Rightarrow> world \<Rightarrow> world outcome option" where
  "notify e err s =
     (let it = items s ! e in
      case send (NotifyFn err e) (c it) of
        None \<Rightarrow> None
      | Some Panic \<Rightarrow> Some Panic
      | Some (Done ch) \<Rightarrow>
          (case close ch of
             Panic \<Rightarrow> Some Panic
           | Done ch' \<Rightarrow> Some (Done (s\<lparr>items := (items s)[e := it\<lparr>c := ch'\<rparr>]\<rparr>))))"

text \<open>
  Calling what was received from the channel. The function literal of \<open>notify\<close> returns
  \<open>(0, err)\<close> for a non-nil \<open>err\<close>, panics when the entry has no index, and returns the
  index otherwise; it reads the entry when it is called. Calling a nil function panics.
\<close>

fun call :: "notifyFn option \<Rightarrow> world \<Rightarrow> (uint64 \<times> error option) outcome" where
  "call None s = Panic"
| "call (Some (NotifyFn err e)) s =
     (if err \<noteq> None then Done (0, err)
      else (case Index (entries s (entry (items s ! e))) of
              None \<Rightarrow> Panic
            | Some i \<Rightarrow> Done (i, None)))"

text \<open>
  Invoking the future \<open>e.f = sync.OnceValues(func() (uint64, error) { return (<-e.c)() })\<close>:
  the first call that gets through runs the wrapped function and keeps what it did; every
  later call returns the same values, or panics again if it panicked. Until \<open>notify\<close> has
  sent, the receive blocks (\<open>None\<close>) and nothing changes.
\<close>

fun invoke :: "IndexFuture \<Rightarrow> world \<Rightarrow> (uint64 \<times> error option) outcome option \<times> world" where
  "invoke (OnceFuture a) s =
     (let it = items s ! a in
      case f it of
        Some r \<Rightarrow> (Some r, s)
      | None \<Rightarrow>
          (case recv (c it) of
             None \<Rightarrow> (None, s)
           | Some (fn, ch) \<Rightarrow>
               (let r = call fn s in
                (Some r, s\<lparr>items := (items s)[a := it\<lparr>c := ch, f := Some r\<rparr>]\<rparr>))))"

subsection \<open>Add and doFlush\<close>

text \<open>
  \<^verbatim>\<open>func (q *Queue) squashDupes(e *tessera.Entry) (*queueItem, bool)\<close>
\<close>

definition squashDupes :: "addr \<Rightarrow> world \<Rightarrow> addr \<times> bool \<times> world" where
  "squashDupes e s =
     (let k = Identity (entries s e) in
      case inFlight s k of
        Some item \<Rightarrow> (item, True, s)
      | None \<Rightarrow>
          (let item = length (items s) in
           (item, False,
            s\<lparr>items := items s @ [newEntry e], inFlight := (inFlight s)(k \<mapsto> item)\<rparr>)))"

text \<open>
  \<^verbatim>\<open>func (q *Queue) Add(ctx context.Context, e *tessera.Entry) tessera.IndexFuture\<close>

  \<open>q.buf.Push\<close> belongs to an external buffer library and can fail; \<open>pushErr\<close> is what it
  returns at this call. When it succeeds the item is in the buffer.
\<close>

definition Add :: "addr \<Rightarrow> error option \<Rightarrow> world \<Rightarrow> (IndexFuture \<times> world) outcome option" where
  "Add e pushErr s =
     (case squashDupes e s of
        (item, isDupe, s1) \<Rightarrow>
          if isDupe then Some (Done (OnceFuture item, s1))
          else
            (case pushErr of
               None \<Rightarrow> Some (Done (OnceFuture item, s1\<lparr>buf := buf s1 @ [item]\<rparr>))
             | Some err \<Rightarrow>
                 (case notify item (Some err) s1 of
                    None \<Rightarrow> None
                  | Some Panic \<Rightarrow> Some Panic
                  | Some (Done s2) \<Rightarrow> Some (Done (OnceFuture item, s2)))))"

text \<open>
  \<^verbatim>\<open>func (q *Queue) doFlush(ctx context.Context, entries []*queueItem)\<close>

  \<open>notifyAll\<close> is its second loop: \<open>e.notify(err)\<close>, then \<open>delete(q.inFlight, k)\<close> with
  \<open>k := string(e.entry.Identity())\<close>, for each item of the batch in order.
\<close>

fun notifyAll :: "error option \<Rightarrow> addr list \<Rightarrow> world \<Rightarrow> world outcome option" where
  "notifyAll err [] s = Some (Done s)"
| "notifyAll err (e # es) s =
     (case notify e err s of
        None \<Rightarrow> None
      | Some Panic \<Rightarrow> Some Panic
      | Some (Done s1) \<Rightarrow>
          (let k = Identity (entries s1 (entry (items s1 ! e))) in
           notifyAll err es (s1\<lparr>inFlight := (inFlight s1)(k := None)\<rparr>)))"

definition doFlush :: "FlushFunc \<Rightarrow> addr list \<Rightarrow> world \<Rightarrow> world outcome option" where
  "doFlush flush es s =
     (let entriesData = map (\<lambda>e. entry (items s ! e)) es in
      case flush (entries s) entriesData of
        (err, ents) \<Rightarrow> notifyAll err es (s\<lparr>entries := ents\<rparr>))"

subsection \<open>Runs of the queue\<close>

text \<open>
  What can happen to a queue, one atomic step at a time: a caller adds an entry; the buffer
  flushes, its callback \<open>toWork\<close> sending the buffered items on \<open>work\<close>; the worker
  goroutine of \<open>NewQueue\<close> receives a batch and calls \<open>doFlush\<close>; a caller invokes a
  future; code outside the queue writes entries.
\<close>

datatype operation =
    OpAdd addr "error option"
  | OpToWork
  | OpWorker FlushFunc
  | OpInvoke IndexFuture
  | OpEntries "(addr \<Rightarrow> Entry) \<Rightarrow> (addr \<Rightarrow> Entry)"

fun step :: "operation \<Rightarrow> world \<Rightarrow> world outcome option" where
  "step (OpAdd e pushErr) s =
     (case Add e pushErr s of
        None \<Rightarrow> None
      | Some Panic \<Rightarrow> Some Panic
      | Some (Done (fu, s')) \<Rightarrow> Some (Done s'))"
| "step OpToWork s =
     (if length (work s) < 1 then Some (Done (s\<lparr>work := work s @ [buf s], buf := []\<rparr>))
      else None)"
| "step (OpWorker flush) s =
     (case work s of
        [] \<Rightarrow> None
      | es # rest \<Rightarrow> doFlush flush es (s\<lparr>work := rest\<rparr>))"
| "step (OpInvoke fu) s = Some (Done (snd (invoke fu s)))"
| "step (OpEntries g) s = Some (Done (s\<lparr>entries := g (entries s)\<rparr>))"

fun run :: "operation list \<Rightarrow> world \<Rightarrow> world outcome option" where
  "run [] s = Some (Done s)"
| "run (x # xs) s =
     (case step x s of
        None \<Rightarrow> None
      | Some Panic \<Rightarrow> Some Panic
      | Some (Done s') \<Rightarrow> run xs s')"

subsection \<open>Notions used in the statements\<close>

text \<open>The channel of item \<open>e\<close> right after \<open>notify err\<close>.\<close>

definition notified_chan :: "error option \<Rightarrow> addr \<Rightarrow> chan" where
  "notified_chan err e = \<lparr>buffer = [NotifyFn err e], closed = True\<rparr>"

text \<open>
  An item is pending when it exists, nothing has been sent on its channel and its future
  has not run. A batch is pending when its items are pending and pairwise different.
\<close>

definition pending :: "world \<Rightarrow> addr \<Rightarrow> bool" where
  "pending s e \<longleftrightarrow> e < length (items s) \<and> c (items s ! e) = make_chan \<and> f (items s ! e) = None"

definition batch_pending :: "world \<Rightarrow> addr list \<Rightarrow> bool" where
  "batch_pending s es \<longleftrightarrow> distinct es \<and> (\<forall>e \<in> set es. pending s e)"

text \<open>
  An item is notified, and its future not yet invoked, when it is as \<open>notify err\<close> left it:
  the function literal is in the closed channel and the future has not run. \<open>d\<close> is the
  entry of the item.
\<close>

definition notified :: "world \<Rightarrow> addr \<Rightarrow> error option \<Rightarrow> addr \<Rightarrow> bool" where
  "notified s e err d \<longleftrightarrow>
     e < length (items s) \<and> c (items s ! e) = notified_chan err e \<and> f (items s ! e) = None \<and>
     entry (items s ! e) = d"

text \<open>The dedup key of an item: \<open>string(e.entry.Identity())\<close>.\<close>

definition ident :: "world \<Rightarrow> addr \<Rightarrow> bytes" where
  "ident s e = Identity (entries s (entry (items s ! e)))"

text \<open>The invariant of the queue: what is buffered or waiting on \<open>work\<close> is a pending batch.\<close>

definition queue_inv :: "world \<Rightarrow> bool" where
  "queue_inv s \<longleftrightarrow> batch_pending s (buf s @ concat (work s))"

subsection \<open>A small run, for instances of the statements\<close>

text \<open>Two entries with the same identity, at the addresses 7 and 8.\<close>

definition entsW :: "addr \<Rightarrow> Entry" where
  "entsW = (\<lambda>_. \<lparr>Identity = [], Index = None\<rparr>)
     (7 := \<lparr>Identity = [1, 2], Index = None\<rparr>, 8 := \<lparr>Identity = [1, 2], Index = None\<rparr>)"

text \<open>Three flush functions: one fails, one assigns index 5 to entry 7, one assigns nothing.\<close>

definition flushErr :: FlushFunc where
  "flushErr ents es = (Some (Error ''integration failed''), ents)"

definition flushAssign :: FlushFunc where
  "flushAssign ents es = (None, ents(7 := (ents 7)\<lparr>Index := Some 5\<rparr>))"


text \<open>The queue after \<open>Add\<close> of entry 7, and after a failed flush of that batch.\<close>

definition sW1 :: world where
  "sW1 = \<lparr>entries = entsW, items = [newEntry 7], buf = [0], work = [],
     inFlight = [[1, 2] \<mapsto> 0]\<rparr>"

definition sW2 :: world where
  "sW2 = \<lparr>entries = entsW,
     items = [\<lparr>entry = 7, c = notified_chan (Some (Error ''integration failed'')) 0, f = None\<rparr>],
     buf = [], work = [], inFlight = Map.empty\<rparr>"

text \<open>
  The queue after a flush of that batch that returned nil without assigning an index, and
  after a later write that gives entry 7 the index 9.
\<close>

definition sW3 :: world where
  "sW3 = \<lparr>entries = entsW,
     items = [\<lparr>entry = 7, c = notified_chan None 0, f = None\<rparr>],
     buf = [], work = [], inFlight = Map.empty\<rparr>"

definition lateIndex :: "(addr \<Rightarrow> Entry) \<Rightarrow> (addr \<Rightarrow> Entry)" where
  "lateIndex ents = ents(7 := (ents 7)\<lparr>Index := Some 9\<rparr>)"


section \<open>The migration copier (package tessera)\<close>

text \<open>
  The copier talks to two collaborators, the source log (through \<open>getEntries\<close>) and the
  target storage. Both have state of their own; \<open>'\<sigma>\<close> is the type of that state, every call
  takes it and returns it changed. A call of \<open>SetEntryBundle\<close>, \<open>IntegratedSize\<close> or
  \<open>getEntries\<close> is one atomic step that returns. \<open>AwaitIntegration\<close> is documented to block
  until the target has integrated everything implied by the source size, and the target may
  integrate in-line with that call: the call is in progress while the other goroutines run.
  \<open>AwaitIntegration size \<sigma>\<close> is what the call does when it next runs, in the state \<open>\<sigma>\<close>: it
  returns a result, or goes on waiting (\<open>None\<close>), and leaves a state in both cases.

  \<^verbatim>\<open>type MigrationStorage interface { SetEntryBundle(ctx, index uint64, partial uint8, bundle []byte) error;
    AwaitIntegration(ctx, sourceSize uint64) ([]byte, error); IntegratedSize(ctx) (uint64, error) }\<close>
\<close>

record '\<sigma> MigrationStorage =
  SetEntryBundle :: "uint64 \<Rightarrow> uint8 \<Rightarrow> bytes \<Rightarrow> '\<sigma> \<Rightarrow> error option \<times> '\<sigma>"
  AwaitIntegration :: "uint64 \<Rightarrow> '\<sigma> \<Rightarrow> (error + bytes) option \<times> '\<sigma>"
  IntegratedSize :: "'\<sigma> \<Rightarrow> (error + uint64) \<times> '\<sigma>"

text \<open>\<open>client.EntryBundleFetcherFunc\<close>: \<open>func(ctx, bundleIndex uint64, partial uint8) ([]byte, error)\<close>.\<close>

type_synonym '\<sigma> EntryBundleFetcherFunc = "uint64 \<Rightarrow> uint8 \<Rightarrow> '\<sigma> \<Rightarrow> (error + bytes) \<times> '\<sigma>"

text \<open>
  \<^verbatim>\<open>type bundle struct { Index uint64; Partial uint8 }\<close>

  (The type and its fields are renamed: \<open>bundle\<close> is a keyword here, and \<open>Index\<close> is a
  field of \<open>Entry\<close>.)
\<close>

record bundleAddr =
  bundle_Index :: uint64
  bundle_Partial :: uint8

text \<open>The calls, sends and waits of a migration, in the order in which they happen.\<close>

datatype event =
    CallIntegratedSize
  | Enqueue bundleAddr
  | CallGetEntries uint64 uint8
  | CallSetEntryBundle uint64 uint8 bytes
  | CallAwaitIntegration uint64
  | Sleep nat

text \<open>
  \<^verbatim>\<open>type copier struct { storage; getEntries; sourceSize; sourceRoot; todo chan bundle; bundlesMigrated atomic.Uint64 }\<close>

  \<open>todo\<close> holds what has been sent on the channel and not yet received. Two more fields
  carry the state of the collaborators (\<open>env\<close>) and the log of events (\<open>trace\<close>).
\<close>

record '\<sigma> copier =
  storage :: "'\<sigma> MigrationStorage"
  getEntries :: "'\<sigma> EntryBundleFetcherFunc"
  sourceSize :: uint64
  sourceRoot :: bytes
  todo :: "bundleAddr list"
  bundlesMigrated :: uint64
  env :: '\<sigma>
  trace :: "event list"

text \<open>The \<open>&copier{...}\<close> of \<open>Migrate\<close>.\<close>

definition newCopier ::
  "uint64 \<Rightarrow> bytes \<Rightarrow> '\<sigma> EntryBundleFetcherFunc \<Rightarrow> '\<sigma> MigrationStorage \<Rightarrow> '\<sigma> \<Rightarrow> '\<sigma> copier" where
  "newCopier srcSize srcRoot fetch st \<sigma> =
     \<lparr>storage = st, getEntries = fetch, sourceSize = srcSize, sourceRoot = srcRoot,
      todo = [], bundlesMigrated = 0, env = \<sigma>, trace = []\<rparr>"

text \<open>
  \<open>make(chan bundle, n)\<close> does not return for every \<open>n\<close>: the runtime panics
  (\<open>makechan: size out of range\<close>) when \<open>n\<close> is negative or when the buffer, 16 bytes for
  each \<open>bundle\<close>, is larger than it can ever allocate, which is at most \<open>2^48\<close> bytes; below
  that it fails when the memory is not there. \<open>chanLimit\<close> is the greatest \<open>n\<close> for which
  \<open>make\<close> succeeds on the machine at hand.
\<close>

definition makechan_ok :: "int \<Rightarrow> int \<Rightarrow> bool" where
  "makechan_ok chanLimit n \<longleftrightarrow> 0 \<le> n \<and> n \<le> chanLimit \<and> 16 * n \<le> 2 ^ 48"

subsection \<open>The goroutines\<close>

text \<open>
  Once the size check has passed, \<open>Migrate\<close> starts its goroutines: \<open>populateWork\<close>, the
  one that prints statistics, \<open>numWorkers\<close> times \<open>migrateWorker\<close> and the one that calls
  \<open>AwaitIntegration\<close>, the last two kinds in the \<open>errgroup\<close>. They run concurrently and
  share the copier and the collaborators. Each is a small machine that moves one atomic step
  at a time (a channel operation or a call of a collaborator); a schedule, the list of the
  goroutines in the order in which they move, fixes an interleaving, and every interleaving
  is a schedule. A goroutine that is scheduled while it cannot move (a send on the full
  channel, a receive from the empty open one, a worker that has returned) stays where it is.
\<close>

datatype goroutine = PopulateWork | Stats | Worker nat | Await

text \<open>
  Where a worker is in \<open>migrateWorker\<close>: at the receive of \<open>for b := range m.todo\<close>; inside
  \<open>retry.Do\<close> for the bundle \<open>b\<close> after \<open>n\<close> failed attempts, about to call \<open>getEntries\<close>,
  or, with the bytes fetched, about to call \<open>SetEntryBundle\<close>; or returned.
\<close>

datatype worker =
    Receiving
  | Fetching bundleAddr nat
  | Storing bundleAddr nat bytes
  | Returned "error option"

text \<open>
  The local state of the goroutines, and of \<open>Migrate\<close> and its \<open>errgroup\<close>: what the range
  loop of \<open>populateWork\<close> has still to send, whether it has closed \<open>m.todo\<close>, the capacity
  of \<open>m.todo\<close>, whether the statistics goroutine is in its loop, the workers, what
  \<open>AwaitIntegration\<close> returned (once it has), the error that the \<open>errgroup\<close> keeps (the
  first non-nil error that one of its goroutines returned), and the variable \<open>root\<close>.
\<close>

record goroutines =
  toSend :: "bundleAddr list"
  todoClosed :: bool
  todoCap :: nat
  statsOn :: bool
  workers :: "worker list"
  awaited :: "(error + bytes) option"
  egErr :: "error option"
  rootVar :: bytes

text \<open>
  \<^verbatim>\<open>func (m *copier) populateWork(from, treeSize uint64)\<close>

  The code of \<open>layout.Range\<close> is missing: \<open>layoutRange\<close> stands for it, giving the
  \<open>Index\<close> and \<open>Partial\<close> of the \<open>RangeInfo\<close>s that it yields, in order. \<open>populateWork\<close>
  gives the bundles that the loop sends; a step of the goroutine sends the next one if
  \<open>m.todo\<close> has room, and closes the channel (the deferred \<open>close\<close>) when none is left.
\<close>

definition populateWork ::
  "(uint64 \<Rightarrow> uint64 \<Rightarrow> uint64 \<Rightarrow> (uint64 \<times> uint8) list) \<Rightarrow> uint64 \<Rightarrow> uint64 \<Rightarrow> bundleAddr list" where
  "populateWork layoutRange from treeSize =
     map (\<lambda>(i, p). \<lparr>bundle_Index = i, bundle_Partial = p\<rparr>)
       (layoutRange from (treeSize - from) treeSize)"

definition populateWork_step :: "'\<sigma> copier \<times> goroutines \<Rightarrow> '\<sigma> copier \<times> goroutines" where
  "populateWork_step = (\<lambda>(m, g).
     case toSend g of
       [] \<Rightarrow> (m, g\<lparr>todoClosed := True\<rparr>)
     | b # bs \<Rightarrow>
         if length (todo m) < todoCap g
         then (m\<lparr>todo := todo m @ [b], trace := trace m @ [Enqueue b]\<rparr>, g\<lparr>toSend := bs\<rparr>)
         else (m, g))"

text \<open>
  The statistics goroutine: in its loop it sleeps, reads the counter and calls
  \<open>IntegratedSize\<close>, whose result it only prints.
\<close>

definition stats_step :: "'\<sigma> copier \<times> goroutines \<Rightarrow> '\<sigma> copier \<times> goroutines" where
  "stats_step = (\<lambda>(m, g).
     if statsOn g
     then (m\<lparr>env := snd (IntegratedSize (storage m) (env m)),
             trace := trace m @ [CallIntegratedSize]\<rparr>, g)
     else (m, g))"

text \<open>
  Modelled from the spec: \<open>retry.BackOffDelay\<close> belongs to a library whose code is
  missing. The spec says that the retry is with exponential backoff: the wait after the
  failed attempt number \<open>n\<close> (from 0) doubles each time; it is given in units of the
  first wait.
\<close>

definition BackOffDelay :: "nat \<Rightarrow> nat" where
  "BackOffDelay n = 2 ^ n"

text \<open>
  Modelled from the spec: \<open>retry.Do\<close> belongs to the same library. The spec says of it:
  each fetch and store is wrapped in bounded exponential-backoff retry, and the final error
  is surfaced after exhaustion. So the function given to \<open>retry.Do\<close> is run until it
  succeeds, at most \<open>attempts\<close> times, with a wait before every new attempt; when the
  last attempt fails, \<open>retry.Do\<close> returns that attempt's error. \<open>retry_next attempts n\<close>
  is what follows the failure of attempt number \<open>n\<close> (from 0): the wait before the next
  attempt, or \<open>None\<close> when there is none.
\<close>

definition retry_next :: "nat \<Rightarrow> nat \<Rightarrow> nat option" where
  "retry_next attempts n = (if Suc n < attempts then Some (BackOffDelay n) else None)"

text \<open>
  A goroutine of the \<open>errgroup\<close> returns: the group keeps the first non-nil error
  (\<open>errOnce\<close>); a zero \<open>errgroup.Group\<close> has no context to cancel.
\<close>

definition egReturn :: "error option \<Rightarrow> goroutines \<Rightarrow> goroutines" where
  "egReturn r g = g\<lparr>egErr := (case egErr g of None \<Rightarrow> r | Some e \<Rightarrow> Some e)\<rparr>"

text \<open>
  An attempt of worker \<open>i\<close> on bundle \<open>b\<close> has failed with \<open>wErr\<close>, after \<open>n\<close> earlier
  failures: \<open>retry.Do\<close>, called with \<open>retry.Attempts(10)\<close> and
  \<open>retry.DelayType(retry.BackOffDelay)\<close>, waits and tries again, or returns the error, which
  \<open>migrateWorker\<close> returns in turn.
\<close>

definition attemptFailed ::
  "nat \<Rightarrow> bundleAddr \<Rightarrow> nat \<Rightarrow> error \<Rightarrow> '\<sigma> copier \<times> goroutines \<Rightarrow> '\<sigma> copier \<times> goroutines" where
  "attemptFailed i b n wErr = (\<lambda>(m, g).
     case retry_next 10 n of
       Some d \<Rightarrow>
         (m\<lparr>trace := trace m @ [Sleep d]\<rparr>, g\<lparr>workers := (workers g)[i := Fetching b (Suc n)]\<rparr>)
     | None \<Rightarrow>
         (m, egReturn (Some wErr) (g\<lparr>workers := (workers g)[i := Returned (Some wErr)]\<rparr>)))"

text \<open>
  \<^verbatim>\<open>func (m *copier) migrateWorker(ctx context.Context) error\<close>, one step of worker \<open>i\<close>:
  the receive of \<open>for b := range m.todo\<close> (the loop ends, and the worker returns nil, when
  the channel is closed and drained); the call of \<open>getEntries\<close>; the call of
  \<open>SetEntryBundle\<close>, after which, if it succeeded, \<open>m.bundlesMigrated.Add(1)\<close>.
\<close>

definition migrateWorker :: "nat \<Rightarrow> '\<sigma> copier \<times> goroutines \<Rightarrow> '\<sigma> copier \<times> goroutines" where
  "migrateWorker i = (\<lambda>(m, g).
     if i < length (workers g) then
       (case workers g ! i of
          Receiving \<Rightarrow>
            (case todo m of
               b # bs \<Rightarrow> (m\<lparr>todo := bs\<rparr>, g\<lparr>workers := (workers g)[i := Fetching b 0]\<rparr>)
             | [] \<Rightarrow>
                 if todoClosed g
                 then (m, egReturn None (g\<lparr>workers := (workers g)[i := Returned None]\<rparr>))
                 else (m, g))
        | Fetching b n \<Rightarrow>
            (case getEntries m (bundle_Index b) (bundle_Partial b) (env m) of
               (Inl err, \<sigma>1) \<Rightarrow>
                 attemptFailed i b n (ErrFetch (bundle_Index b) (bundle_Partial b) err)
                   (m\<lparr>env := \<sigma>1,
                      trace := trace m @ [CallGetEntries (bundle_Index b) (bundle_Partial b)]\<rparr>, g)
             | (Inr d, \<sigma>1) \<Rightarrow>
                 (m\<lparr>env := \<sigma>1,
                    trace := trace m @ [CallGetEntries (bundle_Index b) (bundle_Partial b)]\<rparr>,
                  g\<lparr>workers := (workers g)[i := Storing b n d]\<rparr>))
        | Storing b n d \<Rightarrow>
            (case SetEntryBundle (storage m) (bundle_Index b) (bundle_Partial b) d (env m) of
               (Some err, \<sigma>2) \<Rightarrow>
                 attemptFailed i b n (ErrStore (bundle_Index b) (bundle_Partial b) err)
                   (m\<lparr>env := \<sigma>2,
                      trace := trace m @ [CallSetEntryBundle (bundle_Index b) (bundle_Partial b) d]\<rparr>, g)
             | (None, \<sigma>2) \<Rightarrow>
                 (m\<lparr>env := \<sigma>2,
                    trace := trace m @ [CallSetEntryBundle (bundle_Index b) (bundle_Partial b) d],
                    bundlesMigrated := bundlesMigrated m + 1\<rparr>,
                  g\<lparr>workers := (workers g)[i := Receiving]\<rparr>))
        | Returned r \<Rightarrow> (m, g))
     else (m, g))"

text \<open>
  The last goroutine of the group: \<open>r, err := m.storage.AwaitIntegration(ctx, sourceSize)\<close>;
  with an error it returns \<open>"migration failed: %v"\<close>, otherwise it sets \<open>root = r\<close> and
  returns nil.
\<close>

definition await_step :: "'\<sigma> copier \<times> goroutines \<Rightarrow> '\<sigma> copier \<times> goroutines" where
  "await_step = (\<lambda>(m, g).
     case awaited g of
       Some r \<Rightarrow> (m, g)
     | None \<Rightarrow>
         (case AwaitIntegration (storage m) (sourceSize m) (env m) of
            (None, \<sigma>4) \<Rightarrow> (m\<lparr>env := \<sigma>4\<rparr>, g)
          | (Some (Inl err), \<sigma>4) \<Rightarrow>
              (m\<lparr>env := \<sigma>4, trace := trace m @ [CallAwaitIntegration (sourceSize m)]\<rparr>,
               egReturn (Some (ErrMigrationFailed err)) (g\<lparr>awaited := Some (Inl err)\<rparr>))
          | (Some (Inr r), \<sigma>4) \<Rightarrow>
              (m\<lparr>env := \<sigma>4, trace := trace m @ [CallAwaitIntegration (sourceSize m)]\<rparr>,
               egReturn None (g\<lparr>awaited := Some (Inr r), rootVar := r\<rparr>))))"

text \<open>One step of a goroutine, and the steps of a schedule.\<close>

fun go_step :: "goroutine \<Rightarrow> '\<sigma> copier \<times> goroutines \<Rightarrow> '\<sigma> copier \<times> goroutines" where
  "go_step PopulateWork s = populateWork_step s"
| "go_step Stats s = stats_step s"
| "go_step (Worker i) s = migrateWorker i s"
| "go_step Await s = await_step s"

fun go_run :: "goroutine list \<Rightarrow> '\<sigma> copier \<times> goroutines \<Rightarrow> '\<sigma> copier \<times> goroutines" where
  "go_run [] s = s"
| "go_run (a # sched) s = go_run sched (go_step a s)"

subsection \<open>Migrate\<close>

text \<open>
  Modelled from the spec: the constant \<open>layout.EntryBundleWidth\<close> is missing; a bundle has
  up to 256 leaves.
\<close>

definition EntryBundleWidth :: uint64 where
  "EntryBundleWidth = 256"

text \<open>
  The goroutines as \<open>Migrate\<close> starts them. The statistics goroutine returns at once when
  \<open>bundlesToMigrate\<close> is 0.
\<close>

definition spawn ::
  "(uint64 \<Rightarrow> uint64 \<Rightarrow> uint64 \<Rightarrow> (uint64 \<times> uint8) list) \<Rightarrow> int \<Rightarrow> uint64 \<Rightarrow> uint64 \<Rightarrow> goroutines" where
  "spawn layoutRange numWorkers targetSize srcSize =
     \<lparr>toSend = populateWork layoutRange targetSize srcSize,
      todoClosed = False,
      todoCap = nat numWorkers,
      statsOn = ((srcSize div EntryBundleWidth) - (targetSize div EntryBundleWidth) + 1 \<noteq> 0),
      workers = replicate (nat numWorkers) Receiving,
      awaited = None,
      egErr = None,
      rootVar = []\<rparr>"

text \<open>\<open>eg.Wait()\<close> returns when every goroutine of the group has returned.\<close>

fun returned :: "worker \<Rightarrow> bool" where
  "returned (Returned r) = True"
| "returned w = False"

definition waitDone :: "goroutines \<Rightarrow> bool" where
  "waitDone g \<longleftrightarrow> list_all returned (workers g) \<and> awaited g \<noteq> None"

text \<open>
  \<^verbatim>\<open>func Migrate(ctx, numWorkers int, sourceSize uint64, sourceRoot []byte, getEntries, storage) error\<close>

  \<open>Migrate chanLimit layoutRange sched\<close> is the call of \<open>Migrate\<close> in which the goroutines
  move as the schedule \<open>sched\<close> says. It gives what \<open>Migrate\<close> has done at the end of the
  schedule, \<open>Some\<close> if it has returned or panicked and \<open>None\<close> if it is still in
  \<open>eg.Wait()\<close>, and the copier as it is then. \<open>Migrate\<close> blocks for ever when it is still
  waiting at the end of every schedule. The variable \<open>root\<close> stays nil unless
  \<open>AwaitIntegration\<close> has returned a root; \<open>bytes.Equal\<close> is equality of the byte sequences.
\<close>

definition Migrate ::
  "int \<Rightarrow> (uint64 \<Rightarrow> uint64 \<Rightarrow> uint64 \<Rightarrow> (uint64 \<times> uint8) list) \<Rightarrow> goroutine list \<Rightarrow>
     int \<Rightarrow> uint64 \<Rightarrow> bytes \<Rightarrow> '\<sigma> EntryBundleFetcherFunc \<Rightarrow> '\<sigma> MigrationStorage \<Rightarrow> '\<sigma> \<Rightarrow>
     error option outcome option \<times> '\<sigma> copier" where
  "Migrate chanLimit layoutRange sched numWorkers srcSize srcRoot fetch st \<sigma> =
     (let m = newCopier srcSize srcRoot fetch st \<sigma> in
      if \<not> makechan_ok chanLimit numWorkers then (Some Panic, m)
      else
        (case IntegratedSize (storage m) (env m) of
           (Inl err, \<sigma>1) \<Rightarrow>
             (Some (Done (Some (ErrSize err))), m\<lparr>env := \<sigma>1, trace := [CallIntegratedSize]\<rparr>)
         | (Inr targetSize, \<sigma>1) \<Rightarrow>
             (let m1 = m\<lparr>env := \<sigma>1, trace := [CallIntegratedSize]\<rparr> in
              if targetSize > srcSize
              then (Some (Done (Some (ErrTargetSize targetSize srcSize))), m1)
              else
                (case go_run sched (m1, spawn layoutRange numWorkers targetSize srcSize) of
                   (m2, g) \<Rightarrow>
                     if waitDone g
                     then
                       (case egErr g of
                          Some err \<Rightarrow> (Some (Done (Some (ErrMigrationFailed err))), m2)
                        | None \<Rightarrow>
                            if rootVar g \<noteq> sourceRoot m2
                            then (Some (Done (Some (ErrRootMismatch (rootVar g) (sourceRoot m2)))), m2)
                            else (Some (Done None), m2))
                     else (None, m2)))))"

subsection \<open>Notions used in the statements\<close>

text \<open>The copier and the goroutines as they are when the size check has passed.\<close>

definition start ::
  "(uint64 \<Rightarrow> uint64 \<Rightarrow> uint64 \<Rightarrow> (uint64 \<times> uint8) list) \<Rightarrow> int \<Rightarrow> uint64 \<Rightarrow> bytes \<Rightarrow>
     '\<sigma> EntryBundleFetcherFunc \<Rightarrow> '\<sigma> MigrationStorage \<Rightarrow> uint64 \<Rightarrow> '\<sigma> \<Rightarrow> '\<sigma> copier \<times> goroutines" where
  "start layoutRange numWorkers srcSize srcRoot fetch st targetSize \<sigma>1 =
     ((newCopier srcSize srcRoot fetch st \<sigma>1)\<lparr>trace := [CallIntegratedSize]\<rparr>,
      spawn layoutRange numWorkers targetSize srcSize)"

text \<open>The settings of a copier that no step changes.\<close>

definition same_config :: "'\<sigma> copier \<Rightarrow> '\<sigma> copier \<Rightarrow> bool" where
  "same_config m' m \<longleftrightarrow> storage m' = storage m \<and> getEntries m' = getEntries m \<and>
     sourceSize m' = sourceSize m \<and> sourceRoot m' = sourceRoot m"

fun is_fetch :: "event \<Rightarrow> bool" where
  "is_fetch (CallGetEntries i p) = True"
| "is_fetch ev = False"

fun is_sleep :: "event \<Rightarrow> bool" where
  "is_sleep (Sleep d) = True"
| "is_sleep ev = False"

text \<open>A worker that has returned an error.\<close>

fun failed :: "worker \<Rightarrow> bool" where
  "failed (Returned (Some err)) = True"
| "failed w = False"

text \<open>A worker that has fetched a bundle and is about to store it.\<close>

fun storing :: "worker \<Rightarrow> bool" where
  "storing (Storing b n d) = True"
| "storing w = False"

text \<open>The number of attempts that a worker has started on the bundle it is copying.\<close>

fun attempts_made :: "worker \<Rightarrow> nat" where
  "attempts_made (Fetching b n) = Suc n"
| "attempts_made (Storing b n d) = Suc n"
| "attempts_made w = 0"

text \<open>
  What the \<open>errgroup\<close> and the variable \<open>root\<close> hold, in terms of what the goroutines have
  returned: the group has an error exactly when a worker or the integration wait has returned
  one, and \<open>root\<close> is the root that \<open>AwaitIntegration\<close> returned.
\<close>

definition eg_inv :: "goroutines \<Rightarrow> bool" where
  "eg_inv g \<longleftrightarrow>
     ((egErr g = None) = (\<not> list_ex failed (workers g) \<and> (\<forall>err. awaited g \<noteq> Some (Inl err)))) \<and>
     (\<forall>r. awaited g = Some (Inr r) \<longrightarrow> rootVar g = r)"

subsection \<open>A small source and target, for instances of the statements\<close>

text \<open>
  A target that counts the bundles stored in it, reports \<open>targetSize\<close> as its size, and
  whose \<open>AwaitIntegration\<close> returns \<open>root\<close> once the bundles stored cover the source size,
  and waits until then. A source that always answers, and one that never does. A range
  enumerator for a source of one leaf.
\<close>

definition exStorage :: "uint64 \<Rightarrow> bytes \<Rightarrow> nat MigrationStorage" where
  "exStorage targetSize root =
     \<lparr>SetEntryBundle = (\<lambda>i p d \<sigma>. (None, Suc \<sigma>)),
      AwaitIntegration = (\<lambda>size \<sigma>. (if unat size \<le> 256 * \<sigma> then Some (Inr root) else None, \<sigma>)),
      IntegratedSize = (\<lambda>\<sigma>. (Inr targetSize, \<sigma>))\<rparr>"

definition fetchOk :: "nat EntryBundleFetcherFunc" where
  "fetchOk i p \<sigma> = (Inr [0, 1, 65], \<sigma>)"

definition fetchFail :: "nat EntryBundleFetcherFunc" where
  "fetchFail i p \<sigma> = (Inl (Error ''unavailable''), \<sigma>)"

definition exRange :: "uint64 \<Rightarrow> uint64 \<Rightarrow> uint64 \<Rightarrow> (uint64 \<times> uint8) list" where
  "exRange from n treeSize = (if n = 0 then [] else [(0, 1)])"

definition rootW :: bytes where
  "rootW = [7, 7]"

text \<open>
  A schedule for one worker and the failing source: \<open>populateWork\<close> sends the bundle and
  closes the channel, then the worker receives it and makes its attempts. \<open>mFail\<close> and
  \<open>gFail\<close> are the copier and the goroutines at its end.
\<close>

definition schedFail :: "goroutine list" where
  "schedFail = [PopulateWork, PopulateWork,
     Worker 0, Worker 0, Worker 0, Worker 0, Worker 0, Worker 0,
     Worker 0, Worker 0, Worker 0, Worker 0, Worker 0]"

definition mFail :: "nat copier" where
  "mFail = fst (go_run schedFail (start exRange 1 1 rootW fetchFail (exStorage 0 rootW) 0 0))"

definition gFail :: goroutines where
  "gFail = snd (go_run schedFail (start exRange 1 1 rootW fetchFail (exStorage 0 rootW) 0 0))"

text \<open>
  What holds all along with the failing source: nothing is fetched, so nothing is stored and
  the integration wait has not returned.
\<close>

definition never_stored :: "nat copier \<times> goroutines \<Rightarrow> bool" where
  "never_stored s \<longleftrightarrow>
     getEntries (fst s) = fetchFail \<and> storage (fst s) = exStorage 0 rootW \<and>
     sourceSize (fst s) = 1 \<and> env (fst s) = 0 \<and> awaited (snd s) = None \<and>
     \<not> list_ex storing (workers (snd s))"

text \<open>
  A schedule for two workers and the source that answers: the first worker receives the
  bundle, the second finds the channel closed and drained, the integration wait and the
  statistics run in between, and the wait returns once the bundle is stored.
\<close>

definition schedOk :: "goroutine list" where
  "schedOk = [Await, PopulateWork, Worker 0, PopulateWork, Worker 1, Stats, Worker 0, Await,
     Worker 0, Worker 0, Await]"

text \<open>
  A source whose first ten calls fail, with a target that counts the bundles stored and the
  calls of the source and whose \<open>AwaitIntegration\<close> returns once two bundles are stored,
  and a range enumerator for a source of 257 leaves, in two bundles. In
  \<open>schedShared\<close> the two workers move in turn, so that each of them meets five of the
  failures; in \<open>schedAlone\<close> the first worker moves alone until it has returned, and the
  second one after it.
\<close>

definition flakyStorage :: "bytes \<Rightarrow> (nat \<times> nat) MigrationStorage" where
  "flakyStorage root =
     \<lparr>SetEntryBundle = (\<lambda>i p d (stored, calls). (None, (Suc stored, calls))),
      AwaitIntegration = (\<lambda>size (stored, calls).
         (if 2 \<le> stored then Some (Inr root) else None, (stored, calls))),
      IntegratedSize = (\<lambda>\<sigma>. (Inr 0, \<sigma>))\<rparr>"

definition fetchFlaky :: "(nat \<times> nat) EntryBundleFetcherFunc" where
  "fetchFlaky i p = (\<lambda>(stored, calls).
     (if calls < 10 then Inl (Error ''unavailable'') else Inr [0, 1, 65], (stored, Suc calls)))"

definition exRange2 :: "uint64 \<Rightarrow> uint64 \<Rightarrow> uint64 \<Rightarrow> (uint64 \<times> uint8) list" where
  "exRange2 from n treeSize = [(0, 0), (1, 1)]"

definition schedShared :: "goroutine list" where
  "schedShared = [PopulateWork, PopulateWork, PopulateWork,
     Worker 0, Worker 1,
     Worker 0, Worker 1, Worker 0, Worker 1, Worker 0, Worker 1, Worker 0, Worker 1,
     Worker 0, Worker 1,
     Worker 0, Worker 1, Worker 0, Worker 1, Worker 0, Worker 1,
     Await]"

definition schedAlone :: "goroutine list" where
  "schedAlone = [PopulateWork, PopulateWork, PopulateWork,
     Worker 0, Worker 0, Worker 0, Worker 0, Worker 0, Worker 0,
     Worker 0, Worker 0, Worker 0, Worker 0, Worker 0,
     Worker 1, Worker 1, Worker 1, Worker 1,
     Await]"

section \<open>The tile read API of the MySQL conformance server (package main)\<close>

text \<open>
  What a handler has written when it returns: the status code (200 when the handler wrote a
  body without calling \<open>WriteHeader\<close>), the headers it set, and the body. The body of the
  reply to a malformed URL is \<open>fmt.Sprintf("Malformed URL: %s", err.Error())\<close>.
\<close>

datatype body = NoBody | Bytes bytes | MalformedURL error

record response =
  status :: nat
  header :: "string \<rightharpoonup> string"
  body :: body

text \<open>
  The handler of \<^verbatim>\<open>GET /tile/{level}/{index...}\<close> in \<open>configureTilesReadAPI\<close>.
  The code of \<open>layout.ParseTileLevelIndexWidth\<close> and of the storage's \<open>ReadTile\<close> is
  missing; they are parameters: \<open>parse\<close> gives an error or the level, the index and the width
  (a \<open>uint8\<close>, as \<open>ReadTile\<close> takes it), \<open>ReadTile\<close> an error, nil (\<open>None\<close>) or the tile.
  A failing \<open>w.Write\<close> is only logged.
\<close>

definition tileHandler ::
  "(string \<Rightarrow> string \<Rightarrow> error + uint64 \<times> uint64 \<times> uint8) \<Rightarrow>
   (uint64 \<Rightarrow> uint64 \<Rightarrow> uint8 \<Rightarrow> error + bytes option) \<Rightarrow> string \<Rightarrow> string \<Rightarrow> response" where
  "tileHandler parse ReadTile level index =
     (case parse level index of
        Inl err \<Rightarrow> \<lparr>status = 400, header = Map.empty, body = MalformedURL err\<rparr>
      | Inr (l, i, width) \<Rightarrow>
          (case ReadTile l i width of
             Inl err \<Rightarrow> \<lparr>status = 500, header = Map.empty, body = NoBody\<rparr>
           | Inr None \<Rightarrow> \<lparr>status = 404, header = Map.empty, body = NoBody\<rparr>
           | Inr (Some tile) \<Rightarrow>
               \<lparr>status = 200,
                header = [''Cache-Control'' \<mapsto> ''public, max-age=31536000, immutable''],
                body = Bytes tile\<rparr>))"
section \<open>Properties of the tile layout\<close>

subsection \<open>partialTileSize\<close>

lemma unat_level_times_8:
  assumes "unat (L :: uint64) < 2 ^ 61"
  shows "unat (L * 8) = unat L * 8"
proof -
  have "unat L * unat (8 :: uint64) < 2 ^ LENGTH(64)"
    using assms by simp
  then have "unat (L * 8) = unat L * unat (8 :: uint64)"
    by (simp only: unat_mult_lem)
  then show ?thesis by simp
qed

lemma sizeAtLevel_nat:
  assumes "unat (L :: uint64) < 2 ^ 61"
  shows "unat (drop_bit (unat (L * 8)) (N :: uint64)) = unat N div 256 ^ unat L"
proof -
  have "(2::nat) ^ (unat L * 8) = (2 ^ 8) ^ unat L"
    by (simp only: mult.commute [of "unat L" 8] power_mult)
  then have p: "(2::nat) ^ (unat L * 8) = 256 ^ unat L"
    by simp
  have "unat (drop_bit (unat (L * 8)) N) = drop_bit (unat (L * 8)) (unat N)"
    by (rule unat_drop_bit_eq)
  also have "\<dots> = unat N div 2 ^ unat (L * 8)"
    by (rule drop_bit_eq_div)
  finally show ?thesis
    by (simp only: unat_level_times_8 [OF assms] p)
qed

lemma fullTiles_nat:
  assumes "unat (L :: uint64) < 2 ^ 61"
  shows "unat (drop_bit (unat (L * 8)) (N :: uint64) div 256) = unat N div 256 ^ (unat L + 1)"
proof -
  have "unat (drop_bit (unat (L * 8)) N div 256) = unat N div 256 ^ unat L div 256"
    by (simp add: unat_div sizeAtLevel_nat [OF assms])
  also have "\<dots> = unat N div (256 ^ unat L * 256)"
    by (simp only: div_mult2_eq)
  finally show ?thesis by (simp add: mult.commute)
qed

text \<open>A tile below a non-empty row of full tiles sits at a level whose shift does not wrap.\<close>

lemma full_level_small:
  assumes "unat (I :: uint64) < unat (N :: uint64) div 256 ^ (unat (L :: uint64) + 1)"
  shows "unat L < 2 ^ 61"
proof (rule ccontr)
  assume "\<not> unat L < 2 ^ 61"
  then have "8 \<le> unat L + 1" by simp
  then have "(256::nat) ^ 8 \<le> 256 ^ (unat L + 1)"
    by (rule power_increasing) simp
  moreover have "unat N < 2 ^ 64"
    using unsigned_less [of N] by simp
  ultimately have "unat N < 256 ^ (unat L + 1)" by simp
  then have "unat N div 256 ^ (unat L + 1) = 0" by simp
  with assms show False by simp
qed

lemma partialTileSize_full:
  assumes "unat I < unat N div 256 ^ (unat L + 1)"
  shows "partialTileSize L I N = 0"
proof -
  have small: "unat L < 2 ^ 61" using assms by (rule full_level_small)
  have "unat I < unat (drop_bit (unat (L * 8)) N div 256)"
    using assms by (simp only: fullTiles_nat [OF small])
  then have "I < drop_bit (unat (L * 8)) N div 256"
    by (simp add: word_less_nat_alt)
  then show ?thesis by (simp add: partialTileSize_def Let_def)
qed

lemma partialTileSize_returns_0:
  "partialTileSize L I N = 0 \<longleftrightarrow>
     I < drop_bit (unat (L * 8)) N div 256 \<or> drop_bit (unat (L * 8)) N mod 256 = 0"
  by (simp add: partialTileSize_def Let_def)

lemma partialTileSize_nonzero:
  "partialTileSize L I N \<noteq> 0 \<Longrightarrow> partialTileSize L I N = drop_bit (unat (L * 8)) N mod 256"
  by (simp add: partialTileSize_def Let_def split: if_splits)

lemma partialTileSize_returns_0_nat:
  assumes "unat L < 2 ^ 61"
  shows "partialTileSize L I N = 0 \<longleftrightarrow>
     unat I < unat N div 256 ^ (unat L + 1) \<or> (unat N div 256 ^ unat L) mod 256 = 0"
proof -
  have a: "I < drop_bit (unat (L * 8)) N div 256 \<longleftrightarrow> unat I < unat N div 256 ^ (unat L + 1)"
    by (simp only: word_less_nat_alt fullTiles_nat [OF assms])
  have "drop_bit (unat (L * 8)) N mod 256 = 0 \<longleftrightarrow> unat (drop_bit (unat (L * 8)) N mod 256) = 0"
    by (simp add: unat_eq_0)
  also have "\<dots> \<longleftrightarrow> (unat N div 256 ^ unat L) mod 256 = 0"
    by (simp only: unat_mod sizeAtLevel_nat [OF assms]) simp
  finally show ?thesis
    using a by (simp only: partialTileSize_returns_0)
qed

text \<open>
  Claim C1, as stated: \<open>partialTileSize(L, I, N)\<close> returns 0 if and only if
  \<open>I < N / 256^(L+1)\<close>. The direction from right to left holds; the other one fails: in a
  log of 256 leaves the level-0 tile of index 1 is not among the full tiles
  (\<open>256 / 256 = 1\<close>), and the function returns \<open>256 mod 256 = 0\<close> for it.
\<close>

theorem partialTileSize_zero_iff_counterexample:
  "partialTileSize 0 1 256 = 0 \<and>
   \<not> (unat (1 :: uint64) < unat (256 :: uint64) div 256 ^ (unat (0 :: uint64) + 1))"
  by (simp add: partialTileSize_def)

text \<open>
  Claim C1, amended: if \<open>I < N / 256^(L+1)\<close> then \<open>partialTileSize(L, I, N)\<close> returns 0.
  It returns 0 exactly when \<open>I < (N >> (L*8)) / 256\<close> or \<open>(N >> (L*8)) mod 256 = 0\<close>;
  for \<open>L < 2^61\<close> (where \<open>L*8\<close> does not wrap) that is: \<open>I < N / 256^(L+1)\<close> or
  \<open>(N / 256^L) mod 256 = 0\<close>. A non-zero result equals \<open>(N >> (L*8)) mod 256\<close>.
\<close>

theorem partialTileSize_zero_cases:
  "(unat I < unat N div 256 ^ (unat L + 1) \<longrightarrow> partialTileSize L I N = 0) \<and>
   (partialTileSize L I N = 0 \<longleftrightarrow>
      I < drop_bit (unat (L * 8)) N div 256 \<or> drop_bit (unat (L * 8)) N mod 256 = 0) \<and>
   (unat L < 2 ^ 61 \<longrightarrow>
      (partialTileSize L I N = 0 \<longleftrightarrow>
         unat I < unat N div 256 ^ (unat L + 1) \<or> (unat N div 256 ^ unat L) mod 256 = 0)) \<and>
   (partialTileSize L I N \<noteq> 0 \<longrightarrow>
      partialTileSize L I N = drop_bit (unat (L * 8)) N mod 256)"
proof (intro conjI impI)
  show "partialTileSize L I N = 0" if "unat I < unat N div 256 ^ (unat L + 1)"
    using that by (rule partialTileSize_full)
  show "partialTileSize L I N = 0 \<longleftrightarrow>
      I < drop_bit (unat (L * 8)) N div 256 \<or> drop_bit (unat (L * 8)) N mod 256 = 0"
    by (rule partialTileSize_returns_0)
  show "partialTileSize L I N = 0 \<longleftrightarrow>
      unat I < unat N div 256 ^ (unat L + 1) \<or> (unat N div 256 ^ unat L) mod 256 = 0"
    if "unat L < 2 ^ 61"
    using that by (rule partialTileSize_returns_0_nat)
  show "partialTileSize L I N = drop_bit (unat (L * 8)) N mod 256"
    if "partialTileSize L I N \<noteq> 0"
    using that by (rule partialTileSize_nonzero)
qed

theorem partialTileSize_zero_cases_witness:
  "unat (0 :: uint64) < unat (600 :: uint64) div 256 ^ (unat (0 :: uint64) + 1) \<and>
   partialTileSize 0 0 600 = 0 \<and>
   unat (0 :: uint64) < 2 ^ 61 \<and>
   partialTileSize 0 2 600 \<noteq> 0 \<and>
   partialTileSize 0 2 600 = drop_bit (unat ((0 :: uint64) * 8)) 600 mod 256 \<and>
   partialTileSize 0 2 600 = 88"
  using partialTileSize_zero_cases [where L = 0 and I = 0 and N = 600]
    partialTileSize_zero_cases [where L = 0 and I = 2 and N = 600]
  by (simp add: partialTileSize_def)

subsection \<open>NodeCoordsToTileAddress\<close>

lemma unat_shift_count: "unat (8 - (l :: uint64) mod 8) = 8 - unat l mod 8"
proof -
  have "l mod 8 \<le> 8"
    by (simp add: word_le_nat_alt unat_mod)
  then have "unat (8 - l mod 8) = unat (8 :: uint64) - unat (l mod 8)"
    by (rule unat_sub)
  then show ?thesis by (simp add: unat_mod)
qed

lemma unat_tileRowWidth:
  "unat (push_bit (unat (8 - (l :: uint64) mod 8)) (1 :: uint64)) = 2 ^ (8 - unat l mod 8)"
proof -
  have "(2::nat) ^ (8 - unat l mod 8) \<le> 2 ^ 8"
    by (rule power_increasing) simp_all
  then have lt: "(2::nat) ^ (8 - unat l mod 8) < 2 ^ 64"
    by simp
  have "unat (push_bit (unat (8 - l mod 8)) (1 :: uint64))
      = take_bit 64 (push_bit (8 - unat l mod 8) (1 :: nat))"
    by (simp only: unsigned_push_bit_eq unat_shift_count) simp
  also have "\<dots> = 2 ^ (8 - unat l mod 8)"
    using lt by (simp add: take_bit_nat_eq_self_iff)
  finally show ?thesis .
qed

lemma NodeCoordsToTileAddress_components:
  "NodeCoordsToTileAddress treeLevel treeIndex =
     (treeLevel div 8,
      treeIndex div push_bit (unat (8 - treeLevel mod 8)) 1,
      ucast (treeLevel mod 8),
      treeIndex mod push_bit (unat (8 - treeLevel mod 8)) 1)"
  by (simp add: NodeCoordsToTileAddress_def Let_def)

lemma NodeCoordsToTileAddress_word:
  assumes "NodeCoordsToTileAddress treeLevel treeIndex =
    (tileLevel, tileIndex, nodeLevel, nodeIndex)"
  shows "tileLevel * 8 + ucast nodeLevel = treeLevel"
    and "tileIndex * push_bit (unat (8 - treeLevel mod 8)) 1 + nodeIndex = treeIndex"
proof -
  from assms have tl: "tileLevel = treeLevel div 8" and nl: "nodeLevel = treeLevel mod 8"
    and ti: "tileIndex = treeIndex div push_bit (unat (8 - treeLevel mod 8)) 1"
    and ni: "nodeIndex = treeIndex mod push_bit (unat (8 - treeLevel mod 8)) 1"
    by (auto simp only: NodeCoordsToTileAddress_components prod.inject ucast_id)
  show "tileLevel * 8 + ucast nodeLevel = treeLevel"
    by (simp only: tl nl ucast_id div_mult_mod_eq)
  show "tileIndex * push_bit (unat (8 - treeLevel mod 8)) 1 + nodeIndex = treeIndex"
    by (simp only: ti ni div_mult_mod_eq)
qed

lemma NodeCoordsToTileAddress_nat:
  assumes "NodeCoordsToTileAddress treeLevel treeIndex =
    (tileLevel, tileIndex, nodeLevel, nodeIndex)"
  shows "unat tileLevel * 8 + unat nodeLevel = unat treeLevel"
    and "unat tileIndex * 2 ^ (8 - unat treeLevel mod 8) + unat nodeIndex = unat treeIndex"
proof -
  from assms have tl: "tileLevel = treeLevel div 8" and nl: "nodeLevel = treeLevel mod 8"
    and ti: "tileIndex = treeIndex div push_bit (unat (8 - treeLevel mod 8)) 1"
    and ni: "nodeIndex = treeIndex mod push_bit (unat (8 - treeLevel mod 8)) 1"
    by (auto simp only: NodeCoordsToTileAddress_components prod.inject ucast_id)
  show "unat tileLevel * 8 + unat nodeLevel = unat treeLevel"
    by (simp add: tl nl unat_div unat_mod)
  show "unat tileIndex * 2 ^ (8 - unat treeLevel mod 8) + unat nodeIndex = unat treeIndex"
    by (simp only: ti ni unat_div unat_mod unat_tileRowWidth div_mult_mod_eq)
qed

text \<open>
  Claim C5: for \<open>treeLevel < 64\<close> and \<open>treeIndex < 2^48\<close>, recombining the result
  \<open>(tileLevel, tileIndex, nodeLevel, nodeIndex)\<close> of \<open>NodeCoordsToTileAddress\<close> as
  \<open>tileLevel*8 + nodeLevel\<close> and \<open>tileIndex * (1 << (8 - treeLevel mod 8)) + nodeIndex\<close>
  gives back \<open>treeLevel\<close> and \<open>treeIndex\<close>. The recombination is stated twice: in
  \<open>uint64\<close> arithmetic, and over the natural numbers (so nothing wraps on the way).
\<close>

theorem NodeCoordsToTileAddress_roundtrip:
  assumes "treeLevel < 64" and "treeIndex < 2 ^ 48"
    and "NodeCoordsToTileAddress treeLevel treeIndex =
      (tileLevel, tileIndex, nodeLevel, nodeIndex)"
  shows "tileLevel * 8 + ucast nodeLevel = treeLevel \<and>
     tileIndex * push_bit (unat (8 - treeLevel mod 8)) 1 + nodeIndex = treeIndex \<and>
     unat tileLevel * 8 + unat nodeLevel = unat treeLevel \<and>
     unat tileIndex * 2 ^ (8 - unat treeLevel mod 8) + unat nodeIndex = unat treeIndex"
  using NodeCoordsToTileAddress_word [OF assms(3)] NodeCoordsToTileAddress_nat [OF assms(3)]
  by (intro conjI)

theorem NodeCoordsToTileAddress_roundtrip_witness:
  "(9 :: uint64) < 64 \<and> (1000 :: uint64) < 2 ^ 48 \<and>
   NodeCoordsToTileAddress 9 1000 = (1, 7, 1, 104) \<and>
   (1 :: uint64) * 8 + ucast (1 :: uint) = 9 \<and>
   (7 :: uint64) * push_bit (unat (8 - (9 :: uint64) mod 8)) 1 + 104 = 1000 \<and>
   unat (1 :: uint64) * 8 + unat (1 :: uint) = unat (9 :: uint64) \<and>
   unat (7 :: uint64) * 2 ^ (8 - unat (9 :: uint64) mod 8) + unat (104 :: uint64)
     = unat (1000 :: uint64)"
proof -
  have l: "(9 :: uint64) < 64" and i: "(1000 :: uint64) < 2 ^ 48"
    by simp_all
  have r: "NodeCoordsToTileAddress 9 1000 = (1, 7, 1, 104)"
    by (simp add: NodeCoordsToTileAddress_def)
  show ?thesis
    using l i r NodeCoordsToTileAddress_roundtrip [OF l i r] by simp
qed

section \<open>Properties of the queue\<close>

subsection \<open>notify and the loop of doFlush\<close>

lemma send_Done_iff:
  "send v ch = Some (Done ch') \<longleftrightarrow> ch = make_chan \<and> ch' = \<lparr>buffer = [v], closed = False\<rparr>"
  by (cases ch) (auto simp: send_def make_chan_def)

lemma notify_Done_iff:
  "notify e err s = Some (Done s1) \<longleftrightarrow>
     c (items s ! e) = make_chan \<and>
     s1 = s\<lparr>items := (items s)[e := (items s ! e)\<lparr>c := notified_chan err e\<rparr>]\<rparr>"
proof (cases "send (NotifyFn err e) (c (items s ! e))")
  case None
  then show ?thesis
    using send_Done_iff [of "NotifyFn err e" "c (items s ! e)"]
    by (auto simp: notify_def Let_def send_def make_chan_def split: if_splits)
next
  case (Some r)
  show ?thesis
  proof (cases r)
    case (Done ch)
    with Some have "c (items s ! e) = make_chan" and "ch = \<lparr>buffer = [NotifyFn err e], closed = False\<rparr>"
      by (simp_all add: send_Done_iff)
    with Some Done show ?thesis
      by (auto simp: notify_def Let_def close_def notified_chan_def)
  next
    case Panic
    with Some show ?thesis
      by (auto simp: notify_def Let_def send_def make_chan_def split: if_splits)
  qed
qed

lemma notify_pending:
  "c (items s ! e) = make_chan \<Longrightarrow>
   notify e err s = Some (Done (s\<lparr>items := (items s)[e := (items s ! e)\<lparr>c := notified_chan err e\<rparr>]\<rparr>))"
  by (simp add: notify_Done_iff)

lemma notify_closed_Panic:
  "closed (c (items s ! e)) \<Longrightarrow> notify e err s = Some Panic"
  by (simp add: notify_def Let_def send_def)

lemma nth_update_field:
  "entry ((xs[e := (xs ! e)\<lparr>c := ch\<rparr>]) ! a) = entry (xs ! a)"
  "f ((xs[e := (xs ! e)\<lparr>c := ch\<rparr>]) ! a) = f (xs ! a)"
proof -
  show "entry ((xs[e := (xs ! e)\<lparr>c := ch\<rparr>]) ! a) = entry (xs ! a)"
  proof (cases "e < length xs")
    case True
    then show ?thesis by (simp add: nth_list_update)
  next
    case False
    then show ?thesis by (simp add: list_update_beyond)
  qed
  show "f ((xs[e := (xs ! e)\<lparr>c := ch\<rparr>]) ! a) = f (xs ! a)"
  proof (cases "e < length xs")
    case True
    then show ?thesis by (simp add: nth_list_update)
  next
    case False
    then show ?thesis by (simp add: list_update_beyond)
  qed
qed

lemma notify_Done_frame:
  assumes "notify e err s = Some (Done s1)"
  shows "entries s1 = entries s" and "buf s1 = buf s" and "inFlight s1 = inFlight s"
    and "length (items s1) = length (items s)"
    and "entry (items s1 ! a) = entry (items s ! a)"
    and "f (items s1 ! a) = f (items s ! a)"
    and "a \<noteq> e \<Longrightarrow> items s1 ! a = items s ! a"
    and "e < length (items s) \<Longrightarrow> c (items s1 ! e) = notified_chan err e"
    and "ident s1 a = ident s a"
proof -
  from assms have s1: "s1 = s\<lparr>items := (items s)[e := (items s ! e)\<lparr>c := notified_chan err e\<rparr>]\<rparr>"
    by (simp only: notify_Done_iff)
  show "entries s1 = entries s" and "buf s1 = buf s" and "inFlight s1 = inFlight s"
    and "length (items s1) = length (items s)"
    by (simp_all add: s1)
  show "entry (items s1 ! a) = entry (items s ! a)" and "f (items s1 ! a) = f (items s ! a)"
    by (simp_all add: s1 nth_update_field)
  show "items s1 ! a = items s ! a" if "a \<noteq> e"
    using that by (simp add: s1)
  show "c (items s1 ! e) = notified_chan err e" if "e < length (items s)"
    using that by (simp add: s1)
  show "ident s1 a = ident s a"
    by (simp add: s1 ident_def nth_update_field)
qed

lemma notifyAll_Cons_Done:
  assumes "notifyAll err (e # es) s = Some (Done s')"
  obtains s1 where "notify e err s = Some (Done s1)"
    and "notifyAll err es (s1\<lparr>inFlight := (inFlight s1)(ident s1 e := None)\<rparr>) = Some (Done s')"
  using assms by (auto simp: Let_def ident_def split: option.splits outcome.splits)

lemma notifyAll_Done_frame:
  "notifyAll err es s = Some (Done s') \<Longrightarrow>
     entries s' = entries s \<and> buf s' = buf s \<and> length (items s') = length (items s) \<and>
     (\<forall>a. entry (items s' ! a) = entry (items s ! a) \<and> f (items s' ! a) = f (items s ! a)) \<and>
     (\<forall>a. a \<notin> set es \<longrightarrow> items s' ! a = items s ! a)"
proof (induction es arbitrary: s)
  case Nil
  then show ?case by simp
next
  case (Cons e es)
  from Cons.prems obtain s1 where n: "notify e err s = Some (Done s1)"
    and r: "notifyAll err es (s1\<lparr>inFlight := (inFlight s1)(ident s1 e := None)\<rparr>) = Some (Done s')"
    by (rule notifyAll_Cons_Done)
  from Cons.IH [OF r] show ?case
    by (simp add: notify_Done_frame [OF n])
qed

lemma notifyAll_Done_work:
  "notifyAll err es s = Some (Done s') \<Longrightarrow> work s' = work s"
proof (induction es arbitrary: s)
  case Nil
  then show ?case by simp
next
  case (Cons e es)
  from Cons.prems obtain s1 where n: "notify e err s = Some (Done s1)"
    and r: "notifyAll err es (s1\<lparr>inFlight := (inFlight s1)(ident s1 e := None)\<rparr>) = Some (Done s')"
    by (rule notifyAll_Cons_Done)
  from n have "work s1 = work s" by (simp add: notify_Done_iff)
  with Cons.IH [OF r] show ?case by simp
qed

lemma notifyAll_Done_chan:
  "notifyAll err es s = Some (Done s') \<Longrightarrow> e \<in> set es \<Longrightarrow> e < length (items s) \<Longrightarrow>
     c (items s' ! e) = notified_chan err e"
proof (induction es arbitrary: s)
  case Nil
  then show ?case by simp
next
  case (Cons x es)
  from Cons.prems(1) obtain s1 where n: "notify x err s = Some (Done s1)"
    and r: "notifyAll err es (s1\<lparr>inFlight := (inFlight s1)(ident s1 x := None)\<rparr>) = Some (Done s')"
    by (rule notifyAll_Cons_Done)
  show ?case
  proof (cases "e \<in> set es")
    case True
    with Cons.IH [OF r] Cons.prems(3) show ?thesis
      by (simp add: notify_Done_frame [OF n])
  next
    case False
    with Cons.prems(2) have "e = x" by simp
    from notifyAll_Done_frame [OF r] False
    have "items s' ! e = items s1 ! e" by simp
    with \<open>e = x\<close> Cons.prems(3) show ?thesis
      by (simp add: notify_Done_frame(8) [OF n])
  qed
qed

lemma notifyAll_Done_closed:
  "notifyAll err es s = Some (Done s') \<Longrightarrow> e \<in> set es \<Longrightarrow> e < length (items s) \<Longrightarrow>
     closed (c (items s' ! e))"
  by (simp add: notifyAll_Done_chan notified_chan_def)

lemma ident_inFlight_update: "ident (s\<lparr>inFlight := m\<rparr>) a = ident s a"
  by (simp add: ident_def)

lemma notifyAll_Done_inFlight:
  "notifyAll err es s = Some (Done s') \<Longrightarrow>
     inFlight s' k = (if k \<in> ident s ` set es then None else inFlight s k)"
proof (induction es arbitrary: s)
  case Nil
  then show ?case by simp
next
  case (Cons x es)
  from Cons.prems(1) obtain s1 where n: "notify x err s = Some (Done s1)"
    and r: "notifyAll err es (s1\<lparr>inFlight := (inFlight s1)(ident s1 x := None)\<rparr>) = Some (Done s')"
    by (rule notifyAll_Cons_Done)
  let ?s2 = "s1\<lparr>inFlight := (inFlight s1)(ident s1 x := None)\<rparr>"
  have id: "ident ?s2 = ident s"
    by (rule ext) (simp add: ident_inFlight_update notify_Done_frame(9) [OF n])
  have m: "inFlight ?s2 k = (if k = ident s x then None else inFlight s k)"
    by (simp add: notify_Done_frame(3,9) [OF n])
  from Cons.IH [OF r]
  have "inFlight s' k = (if k \<in> ident ?s2 ` set es then None else inFlight ?s2 k)" .
  then have "inFlight s' k =
      (if k \<in> ident s ` set es then None else if k = ident s x then None else inFlight s k)"
    by (simp only: id m)
  then show ?case by auto
qed

lemma notifyAll_pending_Done:
  "distinct es \<Longrightarrow> \<forall>e \<in> set es. c (items s ! e) = make_chan \<Longrightarrow>
     \<exists>s'. notifyAll err es s = Some (Done s')"
proof (induction es arbitrary: s)
  case Nil
  then show ?case by simp
next
  case (Cons x es)
  from Cons.prems obtain s1 where n: "notify x err s = Some (Done s1)"
    by (simp add: notify_pending)
  let ?s2 = "s1\<lparr>inFlight := (inFlight s1)(ident s1 x := None)\<rparr>"
  have "c (items ?s2 ! e) = make_chan" if "e \<in> set es" for e
  proof -
    from that Cons.prems have "e \<noteq> x" and "c (items s ! e) = make_chan" by auto
    then show ?thesis by (simp add: notify_Done_frame(7) [OF n])
  qed
  moreover from Cons.prems have "distinct es" by simp
  ultimately obtain s' where "notifyAll err es ?s2 = Some (Done s')"
    using Cons.IH [of ?s2] by blast
  with n show ?case by (simp add: Let_def ident_def)
qed

subsection \<open>Add, and the futures of a flushed batch\<close>

lemma doFlush_eq:
  "flush (entries s) (map (\<lambda>e. entry (items s ! e)) es) = (err, ents) \<Longrightarrow>
   doFlush flush es s = notifyAll err es (s\<lparr>entries := ents\<rparr>)"
  by (simp add: doFlush_def Let_def)

lemma batch_pending_Done:
  assumes "batch_pending s es"
  shows "\<exists>s'. notifyAll err es (s\<lparr>entries := ents\<rparr>) = Some (Done s')"
proof (rule notifyAll_pending_Done)
  from assms show "distinct es" by (simp add: batch_pending_def)
  from assms show "\<forall>e \<in> set es. c (items (s\<lparr>entries := ents\<rparr>) ! e) = make_chan"
    by (simp add: batch_pending_def pending_def)
qed

lemma invoke_notified:
  assumes "a < length (items s)" and "f (items s ! a) = None"
    and "c (items s ! a) = notified_chan err a"
  shows "fst (invoke (OnceFuture a) s) = Some (call (Some (NotifyFn err a)) s)"
  using assms by (simp add: Let_def recv_def notified_chan_def)

text \<open>What a batch's futures see after the loop of doFlush.\<close>

lemma notifyAll_invoke:
  assumes fin: "notifyAll err es s = Some (Done s')"
    and e: "e \<in> set es" and p: "pending s e"
  shows "fst (invoke (OnceFuture e) s') = Some (call (Some (NotifyFn err e)) s')"
proof (rule invoke_notified)
  from p have lt: "e < length (items s)" by (simp add: pending_def)
  with notifyAll_Done_frame [OF fin] show "e < length (items s')" by simp
  from p notifyAll_Done_frame [OF fin] show "f (items s' ! e) = None"
    by (simp add: pending_def)
  from notifyAll_Done_chan [OF fin e lt] show "c (items s' ! e) = notified_chan err e" .
qed

lemma notifyAll_ident:
  assumes "notifyAll err es s = Some (Done s')"
  shows "ident s' e = ident s e"
  using notifyAll_Done_frame [OF assms] by (simp add: ident_def)

lemma notifyAll_inFlight_cleared:
  assumes fin: "notifyAll err es s = Some (Done s')" and e: "e \<in> set es"
  shows "inFlight s' (ident s' e) = None"
proof -
  have "ident s' e \<in> ident s ` set es"
    using e by (simp add: notifyAll_ident [OF fin])
  then show ?thesis
    by (simp add: notifyAll_Done_inFlight [OF fin])
qed

lemma Add_fresh:
  assumes "inFlight s (Identity (entries s e)) = None"
  shows "Add e None s = Some (Done (OnceFuture (length (items s)),
      s\<lparr>items := items s @ [newEntry e],
        inFlight := (inFlight s)(Identity (entries s e) \<mapsto> length (items s)),
        buf := buf s @ [length (items s)]\<rparr>))"
  using assms by (simp add: Add_def squashDupes_def Let_def)

lemma Add_dupe:
  assumes "inFlight s (Identity (entries s e)) = Some a"
  shows "Add e pushErr s = Some (Done (OnceFuture a, s))"
  using assms by (simp add: Add_def squashDupes_def Let_def)

lemma Add_new:
  assumes "inFlight s (Identity (entries s e)) = None"
  shows "\<exists>s1. Add e pushErr s = Some (Done (OnceFuture (length (items s)), s1)) \<and>
     inFlight s1 = (inFlight s)(Identity (entries s e) \<mapsto> length (items s)) \<and>
     entries s1 = entries s \<and>
     buf s1 = (if pushErr = None then buf s @ [length (items s)] else buf s)"
proof (cases pushErr)
  case None
  with assms show ?thesis by (simp add: Add_fresh)
next
  case (Some err)
  let ?s1 = "s\<lparr>items := items s @ [newEntry e],
      inFlight := (inFlight s)(Identity (entries s e) \<mapsto> length (items s))\<rparr>"
  have "notify (length (items s)) (Some err) ?s1 =
      Some (Done (?s1\<lparr>items := (items ?s1)[length (items s) :=
         (items ?s1 ! length (items s))\<lparr>c := notified_chan (Some err) (length (items s))\<rparr>]\<rparr>))"
    by (rule notify_pending) (simp add: newEntry_def)
  with assms Some show ?thesis
    by (simp add: Add_def squashDupes_def Let_def)
qed

subsection \<open>The once-cache of a future\<close>

lemma invoke_cached:
  "f (items s ! a) = Some v \<Longrightarrow> invoke (OnceFuture a) s = (Some v, s)"
  by (simp add: Let_def)

lemma recv_closed: "closed ch \<Longrightarrow> recv ch \<noteq> None"
  by (simp add: recv_def split: list.splits)

lemma invoke_closed:
  assumes "a < length (items s)" and "closed (c (items s ! a))"
    and "invoke (OnceFuture a) s = (r, s1)"
  shows "\<exists>v. r = Some v \<and> a < length (items s1) \<and> f (items s1 ! a) = Some v"
proof (cases "f (items s ! a)")
  case (Some v)
  then have "invoke (OnceFuture a) s = (Some v, s)" by (rule invoke_cached)
  with assms(3) have "r = Some v" and "s1 = s" by simp_all
  with Some assms(1) show ?thesis by simp
next
  case None
  from assms(2) obtain fn ch where "recv (c (items s ! a)) = Some (fn, ch)"
    using recv_closed [of "c (items s ! a)"] by auto
  with None assms show ?thesis by (auto simp: Let_def)
qed

lemma invoke_frame:
  assumes "invoke (OnceFuture b) s = (r, s')"
  shows "entries s' = entries s" and "buf s' = buf s" and "work s' = work s"
    and "inFlight s' = inFlight s" and "length (items s') = length (items s)"
    and "e \<noteq> b \<Longrightarrow> items s' ! e = items s ! e"
    and "pending s b \<Longrightarrow> s' = s"
proof -
  have s': "s' = s \<or> (\<exists>it. s' = s\<lparr>items := (items s)[b := it]\<rparr>)"
    using assms by (auto simp: Let_def split: option.splits)
  then show "entries s' = entries s" and "buf s' = buf s" and "work s' = work s"
    and "inFlight s' = inFlight s" and "length (items s') = length (items s)"
    by auto
  from s' show "items s' ! e = items s ! e" if "e \<noteq> b"
    using that by auto
  show "s' = s" if "pending s b"
    using that assms by (simp add: pending_def Let_def recv_def make_chan_def)
qed

lemma Add_cases:
  assumes "Add e pushErr s = Some (Done (fu, s'))"
  shows "s' = s \<or>
     s' = s\<lparr>items := items s @ [newEntry e],
        inFlight := (inFlight s)(Identity (entries s e) \<mapsto> length (items s)),
        buf := buf s @ [length (items s)]\<rparr> \<or>
     (\<exists>err. s' = s\<lparr>items := items s @ [(newEntry e)\<lparr>c := notified_chan err (length (items s))\<rparr>],
        inFlight := (inFlight s)(Identity (entries s e) \<mapsto> length (items s))\<rparr>)"
proof (cases "inFlight s (Identity (entries s e))")
  case (Some a)
  with assms show ?thesis by (simp add: Add_dupe)
next
  case None
  show ?thesis
  proof (cases pushErr)
    case pn: None
    with None assms show ?thesis by (simp add: Add_fresh)
  next
    case (Some err)
    let ?s1 = "s\<lparr>items := items s @ [newEntry e],
        inFlight := (inFlight s)(Identity (entries s e) \<mapsto> length (items s))\<rparr>"
    have "notify (length (items s)) (Some err) ?s1 =
        Some (Done (?s1\<lparr>items := (items ?s1)[length (items s) :=
           (items ?s1 ! length (items s))\<lparr>c := notified_chan (Some err) (length (items s))\<rparr>]\<rparr>))"
      by (rule notify_pending) (simp add: newEntry_def)
    with None Some assms
    have "s' = s\<lparr>items := items s @ [(newEntry e)\<lparr>c := notified_chan (Some err) (length (items s))\<rparr>],
        inFlight := (inFlight s)(Identity (entries s e) \<mapsto> length (items s))\<rparr>"
      by (auto simp: Add_def squashDupes_def Let_def)
    then show ?thesis by blast
  qed
qed

lemma step_keeps_cache:
  assumes "a < length (items s)" and "f (items s ! a) = Some v"
    and "step x s = Some (Done s')"
  shows "a < length (items s') \<and> f (items s' ! a) = Some v"
proof (cases x)
  case (OpAdd e pushErr)
  with assms(3) obtain fu where "Add e pushErr s = Some (Done (fu, s'))"
    by (auto split: option.splits outcome.splits)
  from Add_cases [OF this] assms(1,2) show ?thesis
    by (auto simp: nth_append)
next
  case OpToWork
  with assms show ?thesis by (auto split: if_splits)
next
  case (OpWorker flush)
  with assms(3) obtain es rest where w: "work s = es # rest"
    and d: "doFlush flush es (s\<lparr>work := rest\<rparr>) = Some (Done s')"
    by (auto split: list.splits)
  obtain err ents where
    "flush (entries (s\<lparr>work := rest\<rparr>)) (map (\<lambda>e. entry (items (s\<lparr>work := rest\<rparr>) ! e)) es) = (err, ents)"
    by (cases "flush (entries (s\<lparr>work := rest\<rparr>)) (map (\<lambda>e. entry (items (s\<lparr>work := rest\<rparr>) ! e)) es)")
  with d have "notifyAll err es (s\<lparr>work := rest, entries := ents\<rparr>) = Some (Done s')"
    by (simp add: doFlush_def Let_def)
  from notifyAll_Done_frame [OF this] assms(1,2) show ?thesis by simp
next
  case (OpInvoke fu)
  obtain b where fu: "fu = OnceFuture b" by (cases fu)
  obtain r where i: "invoke (OnceFuture b) s = (r, s')"
    using assms(3) OpInvoke fu by (cases "invoke (OnceFuture b) s") simp
  show ?thesis
  proof (cases "b = a")
    case True
    with i assms(2) have "s' = s" by (simp add: invoke_cached)
    with assms show ?thesis by simp
  next
    case False
    with invoke_frame(5,6) [OF i] assms(1,2) show ?thesis by simp
  qed
next
  case (OpEntries g)
  with assms show ?thesis by auto
qed

lemma run_keeps_cache:
  "a < length (items s) \<Longrightarrow> f (items s ! a) = Some v \<Longrightarrow> run ops s = Some (Done s') \<Longrightarrow>
     a < length (items s') \<and> f (items s' ! a) = Some v"
proof (induction ops arbitrary: s)
  case Nil
  then show ?case by simp
next
  case (Cons x ops)
  from Cons.prems(3) obtain s1 where st: "step x s = Some (Done s1)"
    and r: "run ops s1 = Some (Done s')"
    by (auto split: option.splits outcome.splits)
  from step_keeps_cache [OF Cons.prems(1,2) st] Cons.IH [OF _ _ r] show ?case by simp
qed

subsection \<open>The invariant\<close>

text \<open>
  Every batch that the worker takes from \<open>work\<close> is pending, whatever ran before, and no
  run of the queue panics: \<open>notify\<close> is never called twice on an item.
\<close>

lemma pending_cong:
  "length (items s') = length (items s) \<Longrightarrow> items s' ! e = items s ! e \<Longrightarrow>
     pending s' e = pending s e"
  by (simp add: pending_def)

lemma NewQueue_inv: "queue_inv (NewQueue ents)"
  by (simp add: queue_inv_def batch_pending_def NewQueue_def)

lemma Add_inv:
  assumes inv: "queue_inv s" and add: "Add e pushErr s = Some (Done (fu, s'))"
  shows "queue_inv s'"
proof -
  from inv have d: "distinct (buf s @ concat (work s))"
    and p: "\<And>a. a \<in> set (buf s @ concat (work s)) \<Longrightarrow> pending s a"
    by (simp_all add: queue_inv_def batch_pending_def)
  have lt: "a < length (items s)" if "a \<in> set (buf s @ concat (work s))" for a
    using p [OF that] by (simp add: pending_def)
  from Add_cases [OF add] consider
      (dupe) "s' = s"
    | (fresh) "s' = s\<lparr>items := items s @ [newEntry e],
        inFlight := (inFlight s)(Identity (entries s e) \<mapsto> length (items s)),
        buf := buf s @ [length (items s)]\<rparr>"
    | (failed) err where "s' = s\<lparr>items := items s @ [(newEntry e)\<lparr>c := notified_chan err (length (items s))\<rparr>],
        inFlight := (inFlight s)(Identity (entries s e) \<mapsto> length (items s))\<rparr>"
    by blast
  then show ?thesis
  proof cases
    case dupe
    with inv show ?thesis by simp
  next
    case fresh
    have new: "length (items s) \<notin> set (buf s @ concat (work s))"
      using lt by blast
    have "pending s' a" if "a \<in> set (buf s @ concat (work s))" for a
      using p [OF that] by (simp add: fresh pending_def nth_append)
    moreover have "pending s' (length (items s))"
      by (simp add: fresh pending_def newEntry_def)
    moreover have "distinct (buf s' @ concat (work s'))"
      using d new by (simp add: fresh)
    moreover have "set (buf s' @ concat (work s')) =
        insert (length (items s)) (set (buf s @ concat (work s)))"
      by (simp add: fresh)
    ultimately show ?thesis
      by (simp only: queue_inv_def batch_pending_def) blast
  next
    case failed
    have "pending s' a" if "a \<in> set (buf s @ concat (work s))" for a
      using p [OF that] by (simp add: failed pending_def nth_append)
    moreover have "buf s' @ concat (work s') = buf s @ concat (work s)"
      by (simp add: failed)
    ultimately show ?thesis
      using d by (simp only: queue_inv_def batch_pending_def) blast
  qed
qed

lemma work_batch_pending:
  assumes "queue_inv s" and "work s = es # rest"
  shows "batch_pending (s\<lparr>work := rest\<rparr>) es"
  using assms by (simp add: queue_inv_def batch_pending_def pending_def)

lemma doFlush_inv:
  assumes inv: "queue_inv s" and w: "work s = es # rest"
    and fl: "doFlush flush es (s\<lparr>work := rest\<rparr>) = Some (Done s')"
  shows "queue_inv s'"
proof -
  obtain err ents where
    "flush (entries (s\<lparr>work := rest\<rparr>)) (map (\<lambda>e. entry (items (s\<lparr>work := rest\<rparr>) ! e)) es) = (err, ents)"
    by (cases "flush (entries (s\<lparr>work := rest\<rparr>)) (map (\<lambda>e. entry (items (s\<lparr>work := rest\<rparr>) ! e)) es)")
  with fl have n: "notifyAll err es (s\<lparr>work := rest, entries := ents\<rparr>) = Some (Done s')"
    by (simp add: doFlush_def Let_def)
  have bw: "buf s' = buf s" "work s' = rest"
    using notifyAll_Done_frame [OF n] notifyAll_Done_work [OF n] by simp_all
  from inv w have d: "distinct (buf s @ es @ concat rest)"
    by (simp add: queue_inv_def batch_pending_def)
  from inv w have p: "pending s a" if "a \<in> set (buf s @ concat rest)" for a
    using that by (auto simp: queue_inv_def batch_pending_def)
  have "pending s' a" if "a \<in> set (buf s @ concat rest)" for a
  proof -
    from that d have "a \<notin> set es" by auto
    with notifyAll_Done_frame [OF n]
    have "length (items s') = length (items s)" and "items s' ! a = items s ! a"
      by simp_all
    with p [OF that] show ?thesis by (simp add: pending_def)
  qed
  moreover from d have "distinct (buf s @ concat rest)" by auto
  ultimately show ?thesis
    by (simp add: queue_inv_def batch_pending_def bw)
qed

lemma invoke_inv:
  assumes inv: "queue_inv s" and i: "invoke (OnceFuture b) s = (r, s')"
  shows "queue_inv s'"
proof (cases "pending s b")
  case True
  with invoke_frame(7) [OF i] inv show ?thesis by simp
next
  case False
  from inv have d: "distinct (buf s @ concat (work s))"
    and p: "\<And>a. a \<in> set (buf s @ concat (work s)) \<Longrightarrow> pending s a"
    by (simp_all add: queue_inv_def batch_pending_def)
  have "pending s' a" if "a \<in> set (buf s @ concat (work s))" for a
  proof -
    from p [OF that] False have "a \<noteq> b" by auto
    with invoke_frame(5,6) [OF i] p [OF that] show ?thesis by (simp add: pending_def)
  qed
  with d invoke_frame(2,3) [OF i] show ?thesis
    by (simp add: queue_inv_def batch_pending_def)
qed

lemma step_inv:
  assumes "queue_inv s" and "step x s = Some (Done s')"
  shows "queue_inv s'"
proof (cases x)
  case (OpAdd e pushErr)
  with assms(2) obtain fu where "Add e pushErr s = Some (Done (fu, s'))"
    by (auto split: option.splits outcome.splits)
  with assms(1) show ?thesis by (rule Add_inv)
next
  case OpToWork
  with assms(2) have s': "s' = s\<lparr>work := work s @ [buf s], buf := []\<rparr>"
    by (auto split: if_splits)
  have "distinct (concat (work s) @ buf s) = distinct (buf s @ concat (work s))"
    by auto
  with assms(1) show ?thesis
    by (simp add: s' queue_inv_def batch_pending_def pending_def Un_commute)
next
  case (OpWorker flush)
  with assms(2) obtain es rest where "work s = es # rest"
    and "doFlush flush es (s\<lparr>work := rest\<rparr>) = Some (Done s')"
    by (auto split: list.splits)
  with assms(1) show ?thesis by (rule doFlush_inv)
next
  case (OpInvoke fu)
  obtain b where fu: "fu = OnceFuture b" by (cases fu)
  obtain r where "invoke (OnceFuture b) s = (r, s')"
    using assms(2) OpInvoke fu by (cases "invoke (OnceFuture b) s") simp
  with assms(1) show ?thesis by (rule invoke_inv)
next
  case (OpEntries g)
  with assms(2) have s': "s' = s\<lparr>entries := g (entries s)\<rparr>" by simp
  from assms(1) show ?thesis
    by (simp add: s' queue_inv_def batch_pending_def pending_def)
qed

lemma Add_no_Panic:
  "Add e pushErr s \<noteq> Some Panic"
proof (cases "inFlight s (Identity (entries s e))")
  case (Some a)
  then show ?thesis by (simp add: Add_dupe)
next
  case None
  show ?thesis
  proof (cases pushErr)
    case pn: None
    with None show ?thesis by (simp add: Add_fresh)
  next
    case (Some err)
    let ?s1 = "s\<lparr>items := items s @ [newEntry e],
        inFlight := (inFlight s)(Identity (entries s e) \<mapsto> length (items s))\<rparr>"
    have "\<exists>s2. notify (length (items s)) (Some err) ?s1 = Some (Done s2)"
      by (simp add: notify_pending newEntry_def)
    then obtain s2 where "notify (length (items s)) (Some err) ?s1 = Some (Done s2)" ..
    with None Some show ?thesis
      by (simp add: Add_def squashDupes_def Let_def)
  qed
qed

lemma step_no_Panic:
  assumes "queue_inv s"
  shows "step x s \<noteq> Some Panic"
proof (cases x)
  case (OpAdd e pushErr)
  then show ?thesis
    using Add_no_Panic [of e pushErr s] by (auto split: option.splits outcome.splits)
next
  case OpToWork
  then show ?thesis by simp
next
  case (OpWorker flush)
  show ?thesis
  proof (cases "work s")
    case Nil
    with OpWorker show ?thesis by simp
  next
    case (Cons es rest)
    obtain err ents where fl:
      "flush (entries (s\<lparr>work := rest\<rparr>)) (map (\<lambda>e. entry (items (s\<lparr>work := rest\<rparr>) ! e)) es) = (err, ents)"
      by (cases "flush (entries (s\<lparr>work := rest\<rparr>)) (map (\<lambda>e. entry (items (s\<lparr>work := rest\<rparr>) ! e)) es)")
    from batch_pending_Done [OF work_batch_pending [OF assms Cons], of err ents]
    obtain s' where "notifyAll err es (s\<lparr>work := rest, entries := ents\<rparr>) = Some (Done s')"
      by auto
    with fl OpWorker Cons show ?thesis by (simp add: doFlush_def Let_def)
  qed
next
  case (OpInvoke fu)
  then show ?thesis by simp
next
  case (OpEntries g)
  then show ?thesis by simp
qed

lemma run_inv:
  "queue_inv s \<Longrightarrow> run ops s = Some (Done s') \<Longrightarrow> queue_inv s'"
proof (induction ops arbitrary: s)
  case Nil
  then show ?case by simp
next
  case (Cons x ops)
  from Cons.prems(2) obtain s1 where st: "step x s = Some (Done s1)"
    and r: "run ops s1 = Some (Done s')"
    by (auto split: option.splits outcome.splits)
  from Cons.IH [OF step_inv [OF Cons.prems(1) st] r] show ?case .
qed

lemma run_no_Panic:
  "queue_inv s \<Longrightarrow> run ops s \<noteq> Some Panic"
proof (induction ops arbitrary: s)
  case Nil
  then show ?case by simp
next
  case (Cons x ops)
  show ?case
  proof (cases "step x s")
    case None
    then show ?thesis by simp
  next
    case (Some r)
    show ?thesis
    proof (cases r)
      case (Done s1)
      with Some Cons.IH [OF step_inv [OF Cons.prems]] show ?thesis by simp
    next
      case Panic
      with Some step_no_Panic [OF Cons.prems, of x] show ?thesis by simp
    qed
  qed
qed

lemma run_NewQueue_batch_pending:
  assumes "run ops (NewQueue ents) = Some (Done s)" and "work s = es # rest"
  shows "batch_pending (s\<lparr>work := rest\<rparr>) es"
  using run_inv [OF NewQueue_inv assms(1)] assms(2) by (rule work_batch_pending)

lemma run_NewQueue_no_Panic: "run ops (NewQueue ents) \<noteq> Some Panic"
  using NewQueue_inv by (rule run_no_Panic)

subsection \<open>Items grow, and a notified item waits for its first invocation\<close>

lemma Add_new_item:
  assumes "inFlight s (Identity (entries s e)) = None"
    and "Add e pushErr s = Some (Done (fu, s1))"
  shows "length (items s1) = Suc (length (items s))"
    and "entry (items s1 ! length (items s)) = e"
proof -
  have "length (items s1) = Suc (length (items s)) \<and> entry (items s1 ! length (items s)) = e"
  proof (cases pushErr)
    case None
    with assms show ?thesis by (auto simp: Add_fresh newEntry_def)
  next
    case (Some err)
    let ?s1 = "s\<lparr>items := items s @ [newEntry e],
        inFlight := (inFlight s)(Identity (entries s e) \<mapsto> length (items s))\<rparr>"
    have "notify (length (items s)) (Some err) ?s1 =
        Some (Done (?s1\<lparr>items := (items ?s1)[length (items s) :=
           (items ?s1 ! length (items s))\<lparr>c := notified_chan (Some err) (length (items s))\<rparr>]\<rparr>))"
      by (rule notify_pending) (simp add: newEntry_def)
    with assms Some show ?thesis
      by (auto simp: Add_def squashDupes_def Let_def newEntry_def)
  qed
  then show "length (items s1) = Suc (length (items s))"
    and "entry (items s1 ! length (items s)) = e"
    by simp_all
qed

lemma step_length_mono:
  assumes "step x s = Some (Done s')"
  shows "length (items s) \<le> length (items s')"
proof (cases x)
  case (OpAdd e pushErr)
  with assms obtain fu where "Add e pushErr s = Some (Done (fu, s'))"
    by (auto split: option.splits outcome.splits)
  from Add_cases [OF this] show ?thesis by auto
next
  case OpToWork
  with assms show ?thesis by (auto split: if_splits)
next
  case (OpWorker flush)
  with assms obtain es rest where w: "work s = es # rest"
    and d: "doFlush flush es (s\<lparr>work := rest\<rparr>) = Some (Done s')"
    by (auto split: list.splits)
  obtain err ents where
    "flush (entries (s\<lparr>work := rest\<rparr>)) (map (\<lambda>e. entry (items (s\<lparr>work := rest\<rparr>) ! e)) es) = (err, ents)"
    by (cases "flush (entries (s\<lparr>work := rest\<rparr>)) (map (\<lambda>e. entry (items (s\<lparr>work := rest\<rparr>) ! e)) es)")
  with d have "notifyAll err es (s\<lparr>work := rest, entries := ents\<rparr>) = Some (Done s')"
    by (simp add: doFlush_def Let_def)
  from notifyAll_Done_frame [OF this] show ?thesis by simp
next
  case (OpInvoke fu)
  obtain b where fu: "fu = OnceFuture b" by (cases fu)
  obtain r where i: "invoke (OnceFuture b) s = (r, s')"
    using assms OpInvoke fu by (cases "invoke (OnceFuture b) s") simp
  from invoke_frame(5) [OF i] show ?thesis by simp
next
  case (OpEntries g)
  with assms show ?thesis by auto
qed

lemma run_length_mono:
  "run ops s = Some (Done s') \<Longrightarrow> length (items s) \<le> length (items s')"
proof (induction ops arbitrary: s)
  case Nil
  then show ?case by simp
next
  case (Cons x ops)
  from Cons.prems obtain s1 where st: "step x s = Some (Done s1)"
    and r: "run ops s1 = Some (Done s')"
    by (auto split: option.splits outcome.splits)
  from step_length_mono [OF st] Cons.IH [OF r] show ?case by simp
qed

text \<open>The entry of an item never changes.\<close>

lemma nth_update_entry:
  "entry ((xs[a := (xs ! a)\<lparr>c := ch, f := v\<rparr>]) ! e) = entry (xs ! e)"
proof (cases "a < length xs")
  case True
  then show ?thesis by (cases "e = a") simp_all
next
  case False
  then show ?thesis by (simp add: list_update_beyond)
qed

lemma invoke_entry:
  assumes "invoke (OnceFuture a) s = (r, s')"
  shows "entry (items s' ! e) = entry (items s ! e)"
proof -
  have "s' = s \<or> (\<exists>ch v. s' = s\<lparr>items := (items s)[a := (items s ! a)\<lparr>c := ch, f := v\<rparr>]\<rparr>)"
    using assms by (auto simp: Let_def split: option.splits)
  then show ?thesis by (auto simp: nth_update_entry)
qed

lemma step_keeps_entry:
  assumes "b < length (items s)" and "step x s = Some (Done s')"
  shows "entry (items s' ! b) = entry (items s ! b)"
proof (cases x)
  case (OpAdd e pushErr)
  with assms(2) obtain fu where "Add e pushErr s = Some (Done (fu, s'))"
    by (auto split: option.splits outcome.splits)
  from Add_cases [OF this] assms(1) show ?thesis
    by (auto simp: nth_append)
next
  case OpToWork
  with assms show ?thesis by (auto split: if_splits)
next
  case (OpWorker flush)
  with assms(2) obtain es rest where w: "work s = es # rest"
    and d: "doFlush flush es (s\<lparr>work := rest\<rparr>) = Some (Done s')"
    by (auto split: list.splits)
  obtain err ents where
    "flush (entries (s\<lparr>work := rest\<rparr>)) (map (\<lambda>e. entry (items (s\<lparr>work := rest\<rparr>) ! e)) es) = (err, ents)"
    by (cases "flush (entries (s\<lparr>work := rest\<rparr>)) (map (\<lambda>e. entry (items (s\<lparr>work := rest\<rparr>) ! e)) es)")
  with d have "notifyAll err es (s\<lparr>work := rest, entries := ents\<rparr>) = Some (Done s')"
    by (simp add: doFlush_def Let_def)
  from notifyAll_Done_frame [OF this] show ?thesis by simp
next
  case (OpInvoke fu)
  obtain a where fu: "fu = OnceFuture a" by (cases fu)
  obtain r where i: "invoke (OnceFuture a) s = (r, s')"
    using assms(2) OpInvoke fu by (cases "invoke (OnceFuture a) s") simp
  from invoke_entry [OF i] show ?thesis .
next
  case (OpEntries g)
  with assms show ?thesis by auto
qed

lemma run_keeps_entry:
  "b < length (items s) \<Longrightarrow> run ops s = Some (Done s') \<Longrightarrow>
     entry (items s' ! b) = entry (items s ! b)"
proof (induction ops arbitrary: s)
  case Nil
  then show ?case by simp
next
  case (Cons x ops)
  from Cons.prems(2) obtain s1 where st: "step x s = Some (Done s1)"
    and r: "run ops s1 = Some (Done s')"
    by (auto split: option.splits outcome.splits)
  from step_length_mono [OF st] Cons.prems(1) have "b < length (items s1)" by simp
  from Cons.IH [OF this r] step_keeps_entry [OF Cons.prems(1) st] show ?case by simp
qed




lemma invoke_first:
  assumes "notified s e err d"
  shows "fst (invoke (OnceFuture e) s) =
    Some (if err \<noteq> None then Done (0, err)
          else (case Index (entries s d) of None \<Rightarrow> Panic | Some i \<Rightarrow> Done (i, None)))"
  using assms by (simp add: notified_def Let_def recv_def notified_chan_def)


subsection \<open>Facts about the small run\<close>

lemma entsW_simps: "Identity (entsW 7) = [1, 2]" "Identity (entsW 8) = [1, 2]"
  "Index (entsW 7) = None"
  by (simp_all add: entsW_def)

lemma sW1_pending: "batch_pending sW1 [0]"
  by (simp add: batch_pending_def pending_def sW1_def newEntry_def)



lemma run_flush_assign:
  "run [OpToWork, OpWorker flushAssign] sW1 = Some (Done (sW3\<lparr>entries := entsW(7 := (entsW 7)\<lparr>Index := Some 5\<rparr>)\<rparr>))"
  by (simp add: sW1_def sW3_def doFlush_def flushAssign_def Let_def newEntry_def
      notify_def send_def close_def make_chan_def notified_chan_def entsW_simps)



subsection \<open>Deduplication (C2)\<close>

text \<open>
  Claim C2: when \<open>e2\<close> is passed to \<open>Add\<close> while an item for its identity is in the dedup
  map (the item created for an earlier \<open>e1\<close> with the same identity), \<open>Add\<close> returns that
  item's future, the very object returned for \<open>e1\<close>, and leaves the whole state as it is:
  nothing is pushed into the buffer and no item is created. The second part follows \<open>e1\<close>
  first and then \<open>e2\<close> from a state in which the identity is not in flight, whatever
  \<open>Push\<close> returns, and then the two futures through any run of the queue. In every state
  in which the item has been notified (its channel is closed, as \<open>notify\<close> leaves it),
  whichever of the two futures is invoked first completes, and the other one, invoked after
  any further run of the queue, completes with the same result. And what they resolve to is
  the error of the notification, as \<open>(0, err)\<close>, or else the index that the entry \<open>e1\<close>
  has when the future is first invoked (a panic if it has none): the duplicate gets the
  index of the original.
\<close>

theorem Add_duplicate_same_future:
  "(inFlight s (Identity (entries s e2)) = Some a \<longrightarrow>
      Add e2 pushErr2 s = Some (Done (OnceFuture a, s))) \<and>
   (inFlight s (Identity (entries s e1)) = None \<and>
    Identity (entries s e2) = Identity (entries s e1) \<longrightarrow>
      (\<exists>f1 f2 s1 s2.
         Add e1 pushErr1 s = Some (Done (f1, s1)) \<and>
         Add e2 pushErr2 s1 = Some (Done (f2, s2)) \<and>
         f2 = f1 \<and> s2 = s1 \<and> buf s2 = buf s1 \<and> length (items s2) = length (items s1) \<and>
         (\<exists>b. f1 = OnceFuture b \<and> b < length (items s2) \<and>
            (\<forall>ops t. run ops s2 = Some (Done t) \<and> closed (c (items t ! b)) \<longrightarrow>
               (\<exists>v t1. invoke f1 t = (Some v, t1) \<and>
                  (\<forall>ops' t2. run ops' t1 = Some (Done t2) \<longrightarrow> invoke f2 t2 = (Some v, t2))) \<and>
               (\<exists>v t1. invoke f2 t = (Some v, t1) \<and>
                  (\<forall>ops' t2. run ops' t1 = Some (Done t2) \<longrightarrow> invoke f1 t2 = (Some v, t2)))) \<and>
            (\<forall>ops t err.
               run ops s2 = Some (Done t) \<and> c (items t ! b) = notified_chan err b \<and>
               f (items t ! b) = None \<longrightarrow>
                 fst (invoke f1 t) =
                   Some (if err \<noteq> None then Done (0, err)
                         else (case Index (entries t e1) of None \<Rightarrow> Panic | Some i \<Rightarrow> Done (i, None))) \<and>
                 fst (invoke f2 t) =
                   Some (if err \<noteq> None then Done (0, err)
                         else (case Index (entries t e1) of None \<Rightarrow> Panic | Some i \<Rightarrow> Done (i, None)))))))"
proof (intro conjI impI)
  assume "inFlight s (Identity (entries s e2)) = Some a"
  then show "Add e2 pushErr2 s = Some (Done (OnceFuture a, s))" by (rule Add_dupe)
next
  assume a: "inFlight s (Identity (entries s e1)) = None \<and>
    Identity (entries s e2) = Identity (entries s e1)"
  then have fresh: "inFlight s (Identity (entries s e1)) = None" ..
  let ?b = "length (items s)"
  from Add_new [OF fresh, of pushErr1]
  obtain s1 where 1: "Add e1 pushErr1 s = Some (Done (OnceFuture ?b, s1))"
    and m: "inFlight s1 = (inFlight s)(Identity (entries s e1) \<mapsto> ?b)"
    and e: "entries s1 = entries s"
    by blast
  from a m e have "inFlight s1 (Identity (entries s1 e2)) = Some ?b"
    by simp
  then have 2: "Add e2 pushErr2 s1 = Some (Done (OnceFuture ?b, s1))"
    by (rule Add_dupe)
  from Add_new_item [OF fresh 1] have lt: "?b < length (items s1)"
    and en: "entry (items s1 ! ?b) = e1"
    by simp_all
  have res: "\<exists>v t1. invoke (OnceFuture ?b) t = (Some v, t1) \<and>
       (\<forall>ops' t2. run ops' t1 = Some (Done t2) \<longrightarrow> invoke (OnceFuture ?b) t2 = (Some v, t2))"
    if r: "run ops s1 = Some (Done t)" and cl: "closed (c (items t ! ?b))" for ops t
  proof -
    from run_length_mono [OF r] lt have lt': "?b < length (items t)" by simp
    obtain r1 t1 where i: "invoke (OnceFuture ?b) t = (r1, t1)"
      by (cases "invoke (OnceFuture ?b) t")
    from invoke_closed [OF lt' cl i]
    obtain v where v: "r1 = Some v" "?b < length (items t1)" "f (items t1 ! ?b) = Some v"
      by blast
    have "invoke (OnceFuture ?b) t2 = (Some v, t2)" if "run ops' t1 = Some (Done t2)" for ops' t2
      using run_keeps_cache [OF v(2,3) that] by (simp add: invoke_cached)
    with i v(1) show ?thesis by blast
  qed
  have val: "fst (invoke (OnceFuture ?b) t) =
       Some (if err \<noteq> None then Done (0, err)
             else (case Index (entries t e1) of None \<Rightarrow> Panic | Some i \<Rightarrow> Done (i, None)))"
    if r: "run ops s1 = Some (Done t)" and ch: "c (items t ! ?b) = notified_chan err ?b"
      and nf: "f (items t ! ?b) = None" for ops t err
  proof -
    from run_length_mono [OF r] lt have "?b < length (items t)" by simp
    with run_keeps_entry [OF lt r] en ch nf have "notified t ?b err e1"
      by (simp add: notified_def)
    then show ?thesis by (rule invoke_first)
  qed
  from 1 2 lt res val show "\<exists>f1 f2 s1 s2.
         Add e1 pushErr1 s = Some (Done (f1, s1)) \<and>
         Add e2 pushErr2 s1 = Some (Done (f2, s2)) \<and>
         f2 = f1 \<and> s2 = s1 \<and> buf s2 = buf s1 \<and> length (items s2) = length (items s1) \<and>
         (\<exists>b. f1 = OnceFuture b \<and> b < length (items s2) \<and>
            (\<forall>ops t. run ops s2 = Some (Done t) \<and> closed (c (items t ! b)) \<longrightarrow>
               (\<exists>v t1. invoke f1 t = (Some v, t1) \<and>
                  (\<forall>ops' t2. run ops' t1 = Some (Done t2) \<longrightarrow> invoke f2 t2 = (Some v, t2))) \<and>
               (\<exists>v t1. invoke f2 t = (Some v, t1) \<and>
                  (\<forall>ops' t2. run ops' t1 = Some (Done t2) \<longrightarrow> invoke f1 t2 = (Some v, t2)))) \<and>
            (\<forall>ops t err.
               run ops s2 = Some (Done t) \<and> c (items t ! b) = notified_chan err b \<and>
               f (items t ! b) = None \<longrightarrow>
                 fst (invoke f1 t) =
                   Some (if err \<noteq> None then Done (0, err)
                         else (case Index (entries t e1) of None \<Rightarrow> Panic | Some i \<Rightarrow> Done (i, None))) \<and>
                 fst (invoke f2 t) =
                   Some (if err \<noteq> None then Done (0, err)
                         else (case Index (entries t e1) of None \<Rightarrow> Panic | Some i \<Rightarrow> Done (i, None)))))"
    by (intro exI [of _ "OnceFuture ?b"] exI [of _ s1] conjI refl) blast+
qed

theorem Add_duplicate_same_future_witness:
  "inFlight sW1 (Identity (entries sW1 8)) = Some 0 \<and>
   Add 8 None sW1 = Some (Done (OnceFuture 0, sW1)) \<and>
   inFlight (NewQueue entsW) (Identity (entries (NewQueue entsW) 7)) = None \<and>
   Identity (entries (NewQueue entsW) 8) = Identity (entries (NewQueue entsW) 7) \<and>
   Add 7 None (NewQueue entsW) = Some (Done (OnceFuture 0, sW1)) \<and>
   buf sW1 = [0] \<and> length (items sW1) = 1 \<and>
   (\<exists>t. run [OpToWork, OpWorker flushAssign] sW1 = Some (Done t) \<and> closed (c (items t ! 0)) \<and>
      c (items t ! 0) = notified_chan None 0 \<and> f (items t ! 0) = None \<and>
      Index (entries t 7) = Some 5 \<and> fst (invoke (OnceFuture 0) t) = Some (Done (5, None)) \<and>
      (\<exists>t1 t2. invoke (OnceFuture 0) t = (Some (Done (5, None)), t1) \<and>
         run [OpEntries lateIndex, OpAdd 8 None] t1 = Some (Done t2) \<and>
         Index (entries t2 7) = Some 9 \<and>
         invoke (OnceFuture 0) t2 = (Some (Done (5, None)), t2)))"
proof -
  let ?t = "sW3\<lparr>entries := entsW(7 := (entsW 7)\<lparr>Index := Some 5\<rparr>)\<rparr>"
  have fresh: "inFlight (NewQueue entsW) (Identity (entries (NewQueue entsW) 7)) = None \<and>
     Identity (entries (NewQueue entsW) 8) = Identity (entries (NewQueue entsW) 7)"
    by (simp add: NewQueue_def entsW_simps)
  have a1: "Add 7 None (NewQueue entsW) = Some (Done (OnceFuture 0, sW1))"
    by (simp add: sW1_def NewQueue_def entsW_simps Add_def squashDupes_def Let_def)
  have dup: "inFlight sW1 (Identity (entries sW1 8)) = Some 0"
    by (simp add: sW1_def entsW_simps)
  have cl: "closed (c (items ?t ! 0))"
    by (simp add: sW3_def notified_chan_def)
  have a2: "Add 8 None sW1 = Some (Done (OnceFuture 0, sW1))"
    using Add_duplicate_same_future [where s = sW1 and ?e2.0 = 8 and a = 0 and ?pushErr2.0 = None] dup
    by simp
  from Add_duplicate_same_future [where s = "NewQueue entsW" and ?e1.0 = 7 and ?e2.0 = 8
      and ?pushErr1.0 = None and ?pushErr2.0 = None, THEN conjunct2, rule_format, OF fresh]
  obtain f1 f2 s1 s2 b where A: "Add 7 None (NewQueue entsW) = Some (Done (f1, s1))"
    and eqs: "f2 = f1" "s2 = s1" "f1 = OnceFuture b"
    and R: "\<forall>ops t. run ops s2 = Some (Done t) \<and> closed (c (items t ! b)) \<longrightarrow>
               (\<exists>v t1. invoke f1 t = (Some v, t1) \<and>
                  (\<forall>ops' t2. run ops' t1 = Some (Done t2) \<longrightarrow> invoke f2 t2 = (Some v, t2))) \<and>
               (\<exists>v t1. invoke f2 t = (Some v, t1) \<and>
                  (\<forall>ops' t2. run ops' t1 = Some (Done t2) \<longrightarrow> invoke f1 t2 = (Some v, t2)))"
    and V: "\<forall>ops t err.
               run ops s2 = Some (Done t) \<and> c (items t ! b) = notified_chan err b \<and>
               f (items t ! b) = None \<longrightarrow>
                 fst (invoke f1 t) =
                   Some (if err \<noteq> None then Done (0, err)
                         else (case Index (entries t 7) of None \<Rightarrow> Panic | Some i \<Rightarrow> Done (i, None))) \<and>
                 fst (invoke f2 t) =
                   Some (if err \<noteq> None then Done (0, err)
                         else (case Index (entries t 7) of None \<Rightarrow> Panic | Some i \<Rightarrow> Done (i, None)))"
    by (elim exE conjE) (rule that)
  from A a1 eqs have fs: "f1 = OnceFuture 0" "f2 = OnceFuture 0" "s2 = sW1" "b = 0"
    by simp_all
  from R [rule_format, of "[OpToWork, OpWorker flushAssign]" ?t, THEN conjunct1] run_flush_assign cl
  obtain v t1 where i: "invoke (OnceFuture 0) ?t = (Some v, t1)"
    and later: "\<And>ops' t2. run ops' t1 = Some (Done t2) \<Longrightarrow> invoke (OnceFuture 0) t2 = (Some v, t2)"
    unfolding fs by blast
  from i have v: "v = Done (5, None)"
    and t1: "t1 = ?t\<lparr>items := [\<lparr>entry = 7, c = \<lparr>buffer = [], closed = True\<rparr>, f = Some (Done (5, None))\<rparr>]\<rparr>"
    by (auto simp add: sW3_def notified_chan_def recv_def Let_def)
  obtain t2 where r: "run [OpEntries lateIndex, OpAdd 8 None] t1 = Some (Done t2)"
    and ix: "Index (entries t2 7) = Some 9"
    by (simp add: t1 sW3_def lateIndex_def Add_def squashDupes_def Let_def entsW_simps)
  have b: "buf sW1 = [0]" and l: "length (items sW1) = 1"
    by (simp_all add: sW1_def)
  from later [OF r] i r ix
  have L: "\<exists>t1 t2. invoke (OnceFuture 0) ?t = (Some (Done (5, None)), t1) \<and>
         run [OpEntries lateIndex, OpAdd 8 None] t1 = Some (Done t2) \<and>
         Index (entries t2 7) = Some 9 \<and>
         invoke (OnceFuture 0) t2 = (Some (Done (5, None)), t2)"
    unfolding v by blast
  have nt: "c (items ?t ! 0) = notified_chan None 0" "f (items ?t ! 0) = None"
    "Index (entries ?t 7) = Some 5"
    by (simp_all add: sW3_def)
  from V [rule_format, of "[OpToWork, OpWorker flushAssign]" ?t None, THEN conjunct2]
    run_flush_assign nt
  have val: "fst (invoke (OnceFuture 0) ?t) = Some (Done (5, None))"
    unfolding fs by simp
  from run_flush_assign cl nt val L
  have "\<exists>t. run [OpToWork, OpWorker flushAssign] sW1 = Some (Done t) \<and> closed (c (items t ! 0)) \<and>
      c (items t ! 0) = notified_chan None 0 \<and> f (items t ! 0) = None \<and>
      Index (entries t 7) = Some 5 \<and> fst (invoke (OnceFuture 0) t) = Some (Done (5, None)) \<and>
      (\<exists>t1 t2. invoke (OnceFuture 0) t = (Some (Done (5, None)), t1) \<and>
         run [OpEntries lateIndex, OpAdd 8 None] t1 = Some (Done t2) \<and>
         Index (entries t2 7) = Some 9 \<and>
         invoke (OnceFuture 0) t2 = (Some (Done (5, None)), t2))"
    by blast
  with dup a2 fresh a1 b l show ?thesis by blast
qed

subsection \<open>A failed flush (C3)\<close>

text \<open>
  Claim C3: when the flush function returns an error for a batch (a pending batch, as is
  every batch that the worker receives, by the invariant), \<open>doFlush\<close> completes, the
  future of every item of the batch (the one future that the first submitter and all
  duplicates hold) resolves to \<open>(0, err)\<close> with that one error, and afterwards the dedup map
  has no entry for the identity of any item of the batch, so that \<open>Add\<close> of an entry with such
  an identity creates a new item, pushes it into the buffer and returns a new future.
\<close>

theorem doFlush_error_resolves_batch:
  assumes bp: "batch_pending s es"
    and fl: "flush (entries s) (map (\<lambda>e. entry (items s ! e)) es) = (Some err, ents)"
  shows "\<exists>s'. doFlush flush es s = Some (Done s') \<and>
     (\<forall>e \<in> set es.
        fst (invoke (OnceFuture e) s') = Some (Done (0, Some err)) \<and>
        inFlight s' (ident s' e) = None \<and>
        (\<forall>e2. Identity (entries s' e2) = ident s' e \<longrightarrow>
           Add e2 None s' = Some (Done (OnceFuture (length (items s')),
             s'\<lparr>items := items s' @ [newEntry e2],
                inFlight := (inFlight s')(ident s' e \<mapsto> length (items s')),
                buf := buf s' @ [length (items s')]\<rparr>))))"
proof -
  from batch_pending_Done [OF bp]
  obtain s' where fin: "notifyAll (Some err) es (s\<lparr>entries := ents\<rparr>) = Some (Done s')"
    by blast
  have "doFlush flush es s = Some (Done s')"
    using fl fin by (simp add: doFlush_def Let_def)
  moreover have "fst (invoke (OnceFuture e) s') = Some (Done (0, Some err))" if "e \<in> set es" for e
  proof -
    from bp that have "pending (s\<lparr>entries := ents\<rparr>) e"
      by (simp add: batch_pending_def pending_def)
    from notifyAll_invoke [OF fin that this] show ?thesis by simp
  qed
  moreover have "inFlight s' (ident s' e) = None" if "e \<in> set es" for e
    using fin that by (rule notifyAll_inFlight_cleared)
  moreover have "Add e2 None s' = Some (Done (OnceFuture (length (items s')),
             s'\<lparr>items := items s' @ [newEntry e2],
                inFlight := (inFlight s')(ident s' e \<mapsto> length (items s')),
                buf := buf s' @ [length (items s')]\<rparr>))"
    if "e \<in> set es" and "Identity (entries s' e2) = ident s' e" for e e2
  proof -
    from that have "inFlight s' (Identity (entries s' e2)) = None"
      by (simp add: notifyAll_inFlight_cleared [OF fin])
    from Add_fresh [OF this] that(2) show ?thesis by simp
  qed
  ultimately show ?thesis by blast
qed

theorem doFlush_error_resolves_batch_witness:
  "batch_pending sW1 [0] \<and>
   flushErr (entries sW1) (map (\<lambda>e. entry (items sW1 ! e)) [0])
     = (Some (Error ''integration failed''), entsW) \<and>
   (\<exists>s'. doFlush flushErr [0] sW1 = Some (Done s') \<and>
      fst (invoke (OnceFuture 0) s') = Some (Done (0, Some (Error ''integration failed''))) \<and>
      inFlight s' [1, 2] = None \<and>
      (\<exists>s''. Add 8 None s' = Some (Done (OnceFuture 1, s'')) \<and> buf s'' = [0, 1]))"
proof -
  have fl: "flushErr (entries sW1) (map (\<lambda>e. entry (items sW1 ! e)) [0])
     = (Some (Error ''integration failed''), entsW)"
    by (simp add: flushErr_def sW1_def)
  from doFlush_error_resolves_batch [where flush = flushErr and s = sW1 and es = "[0]", OF sW1_pending fl]
  obtain s' where d: "doFlush flushErr [0] sW1 = Some (Done s')"
    and i: "fst (invoke (OnceFuture 0) s') = Some (Done (0, Some (Error ''integration failed'')))"
    and m: "inFlight s' (ident s' 0) = None"
    and a: "\<And>e2. Identity (entries s' e2) = ident s' 0 \<Longrightarrow>
           Add e2 None s' = Some (Done (OnceFuture (length (items s')),
             s'\<lparr>items := items s' @ [newEntry e2],
                inFlight := (inFlight s')(ident s' 0 \<mapsto> length (items s')),
                buf := buf s' @ [length (items s')]\<rparr>))"
    by auto
  from d have n: "notifyAll (Some (Error ''integration failed'')) [0] sW1 = Some (Done s')"
    by (simp add: doFlush_def Let_def flushErr_def sW1_def)
  from notifyAll_Done_frame [OF n]
  have e: "entries s' = entsW" and l: "length (items s') = 1" and b: "buf s' = [0]"
    and en: "entry (items s' ! 0) = 7"
    by (simp_all add: sW1_def newEntry_def)
  have id: "ident s' 0 = [1, 2]"
    by (simp add: ident_def e en entsW_simps)
  have "Identity (entries s' 8) = ident s' 0"
    by (simp add: id e entsW_simps)
  from a [OF this] have "\<exists>s''. Add 8 None s' = Some (Done (OnceFuture 1, s'')) \<and> buf s'' = [0, 1]"
    by (simp add: l b)
  with d i m id sW1_pending fl show ?thesis by auto
qed

subsection \<open>Futures are single-shot (C9)\<close>

text \<open>
  Claim C9: once an item has been notified (its channel is closed: \<open>notify\<close> is the only
  place that closes it, and the loop of \<open>doFlush\<close> leaves the channel of every item of the
  batch closed, lemma \<open>notifyAll_Done_closed\<close>), invoking its future
  completes, and every later invocation, directly afterwards or after any further run of the
  queue (adds, duplicates, flushes, invocations of any future, writes to the entries), gives
  the same result: the same \<open>(index, error)\<close>, or the same panic.
\<close>

theorem future_idempotent:
  assumes "a < length (items s)" and "closed (c (items s ! a))"
    and "invoke (OnceFuture a) s = (r, s1)" and "run ops s1 = Some (Done s2)"
  shows "\<exists>v. r = Some v \<and> invoke (OnceFuture a) s1 = (Some v, s1) \<and>
     invoke (OnceFuture a) s2 = (Some v, s2)"
proof -
  from invoke_closed [OF assms(1,2,3)]
  obtain v where v: "r = Some v" "a < length (items s1)" "f (items s1 ! a) = Some v"
    by blast
  from run_keeps_cache [OF v(2,3) assms(4)] have "f (items s2 ! a) = Some v" by simp
  with v show ?thesis by (simp add: invoke_cached)
qed

theorem future_idempotent_witness:
  "0 < length (items sW2) \<and> closed (c (items sW2 ! 0)) \<and>
   (\<exists>s1 s2. invoke (OnceFuture 0) sW2 = (Some (Done (0, Some (Error ''integration failed''))), s1) \<and>
      run [OpAdd 8 None, OpInvoke (OnceFuture 0), OpToWork] s1 = Some (Done s2) \<and>
      work s2 = [[1]] \<and>
      invoke (OnceFuture 0) s1 = (Some (Done (0, Some (Error ''integration failed''))), s1) \<and>
      invoke (OnceFuture 0) s2 = (Some (Done (0, Some (Error ''integration failed''))), s2))"
proof -
  have l: "0 < length (items sW2)" and cl: "closed (c (items sW2 ! 0))"
    by (simp_all add: sW2_def notified_chan_def)
  obtain s1 where i: "invoke (OnceFuture 0) sW2 = (Some (Done (0, Some (Error ''integration failed''))), s1)"
    by (simp add: sW2_def notified_chan_def recv_def Let_def)
  then have s1: "s1 = sW2\<lparr>items := [\<lparr>entry = 7, c = \<lparr>buffer = [], closed = True\<rparr>,
       f = Some (Done (0, Some (Error ''integration failed'')))\<rparr>]\<rparr>"
    by (simp add: sW2_def notified_chan_def recv_def Let_def)
  obtain s2 where r: "run [OpAdd 8 None, OpInvoke (OnceFuture 0), OpToWork] s1 = Some (Done s2)"
    by (simp add: s1 sW2_def Add_def squashDupes_def Let_def entsW_simps)
  then have w: "work s2 = [[1]]"
    by (auto simp add: s1 sW2_def Add_def squashDupes_def Let_def entsW_simps)
  from future_idempotent [OF l cl i r] i r w l cl show ?thesis by auto
qed

subsection \<open>A flush that succeeds without assigning an index (C10)\<close>




section \<open>Properties of the migration copier\<close>

subsection \<open>What no step changes\<close>

lemma same_config_refl: "same_config m m"
  by (simp add: same_config_def)

lemma same_config_trans: "same_config m2 m1 \<Longrightarrow> same_config m1 m \<Longrightarrow> same_config m2 m"
  by (simp add: same_config_def)

lemma populateWork_step_config: "same_config (fst (populateWork_step s)) (fst s)"
  by (cases s) (simp add: populateWork_step_def same_config_def split: list.splits)

lemma stats_step_config: "same_config (fst (stats_step s)) (fst s)"
  by (cases s) (simp add: stats_step_def same_config_def)

lemma attemptFailed_config: "same_config (fst (attemptFailed i b n wErr s)) (fst s)"
  by (cases s) (simp add: attemptFailed_def same_config_def split: option.splits)

lemma migrateWorker_config: "same_config (fst (migrateWorker i s)) (fst s)"
proof (cases s)
  case (Pair m g)
  have 1: "same_config (fst (attemptFailed i b n wErr (m', g))) m" if "same_config m' m"
    for b n wErr and m' :: "'a copier"
    using attemptFailed_config [of i b n wErr "(m', g)"] that
    by (auto intro: same_config_trans)
  show ?thesis
    unfolding Pair migrateWorker_def
    by (auto simp: same_config_refl intro!: 1
        split: worker.splits list.splits prod.splits sum.splits option.splits)
      (simp_all add: same_config_def)
qed

lemma await_step_config: "same_config (fst (await_step s)) (fst s)"
  by (cases s)
    (simp add: await_step_def same_config_def split: option.splits prod.splits sum.splits)

lemma go_step_config: "same_config (fst (go_step a s)) (fst s)"
  by (cases a)
    (simp_all add: populateWork_step_config stats_step_config migrateWorker_config
      await_step_config)

lemma go_run_config: "same_config (fst (go_run sched s)) (fst s)"
proof (induction sched arbitrary: s)
  case Nil
  then show ?case by (simp add: same_config_refl)
next
  case (Cons a sched)
  from Cons.IH [of "go_step a s"] go_step_config [of a s] show ?case
    by (auto intro: same_config_trans)
qed

subsection \<open>The shape of a step\<close>

text \<open>
  A step of a worker leaves the goroutines as they are, or moves this one worker, which had
  not returned, to a place in its loop, or makes it return.
\<close>

lemma attemptFailed_shape:
  "(\<exists>w. \<not> returned w \<and> snd (attemptFailed i b n wErr (m, g)) = g\<lparr>workers := (workers g)[i := w]\<rparr>) \<or>
   (\<exists>r. snd (attemptFailed i b n wErr (m, g)) =
      egReturn r (g\<lparr>workers := (workers g)[i := Returned r]\<rparr>))"
proof (cases "retry_next 10 n")
  case None
  then show ?thesis by (auto simp: attemptFailed_def)
next
  case (Some d)
  then have "snd (attemptFailed i b n wErr (m, g)) = g\<lparr>workers := (workers g)[i := Fetching b (Suc n)]\<rparr>"
    by (simp add: attemptFailed_def)
  moreover have "\<not> returned (Fetching b (Suc n))" by simp
  ultimately show ?thesis by blast
qed

lemma migrateWorker_shape:
  "snd (migrateWorker i (m, g)) = g \<or>
   (i < length (workers g) \<and> \<not> returned (workers g ! i) \<and>
      ((\<exists>w. \<not> returned w \<and> snd (migrateWorker i (m, g)) = g\<lparr>workers := (workers g)[i := w]\<rparr>) \<or>
       (\<exists>r. snd (migrateWorker i (m, g)) =
          egReturn r (g\<lparr>workers := (workers g)[i := Returned r]\<rparr>))))"
proof (cases "i < length (workers g)")
  case False
  then show ?thesis by (simp add: migrateWorker_def)
next
  case lt: True
  have moved: ?thesis
    if "\<not> returned (workers g ! i)" and "\<not> returned w"
      and "snd (migrateWorker i (m, g)) = g\<lparr>workers := (workers g)[i := w]\<rparr>" for w
    using that lt by blast
  have failed_attempt: ?thesis
    if "\<not> returned (workers g ! i)"
      and "snd (migrateWorker i (m, g)) = snd (attemptFailed i b n wErr (m', g))"
    for b n wErr and m' :: "'a copier"
    using attemptFailed_shape [of i b n wErr m' g] that lt by metis
  show ?thesis
  proof (cases "workers g ! i")
    case Receiving
    show ?thesis
    proof (cases "todo m")
      case Nil
      show ?thesis
      proof (cases "todoClosed g")
        case True
        with Nil Receiving lt
        have "snd (migrateWorker i (m, g)) =
            egReturn None (g\<lparr>workers := (workers g)[i := Returned None]\<rparr>)"
          by (simp add: migrateWorker_def)
        with Receiving lt show ?thesis by auto
      next
        case False
        with Nil Receiving lt show ?thesis by (simp add: migrateWorker_def)
      qed
    next
      case (Cons b bs)
      with Receiving lt
      have "snd (migrateWorker i (m, g)) = g\<lparr>workers := (workers g)[i := Fetching b 0]\<rparr>"
        by (simp add: migrateWorker_def)
      with Receiving show ?thesis by (intro moved [of "Fetching b 0"]) simp_all
    qed
  next
    case (Fetching b n)
    obtain r \<sigma>1 where ge: "getEntries m (bundle_Index b) (bundle_Partial b) (env m) = (r, \<sigma>1)"
      by (cases "getEntries m (bundle_Index b) (bundle_Partial b) (env m)")
    show ?thesis
    proof (cases r)
      case (Inl err)
      with Fetching lt ge show ?thesis
        by (intro failed_attempt [of b n "ErrFetch (bundle_Index b) (bundle_Partial b) err"
              "m\<lparr>env := \<sigma>1, trace := trace m @ [CallGetEntries (bundle_Index b) (bundle_Partial b)]\<rparr>"])
          (simp_all add: migrateWorker_def)
    next
      case (Inr d)
      with Fetching lt ge
      have "snd (migrateWorker i (m, g)) = g\<lparr>workers := (workers g)[i := Storing b n d]\<rparr>"
        by (simp add: migrateWorker_def)
      with Fetching show ?thesis by (intro moved [of "Storing b n d"]) simp_all
    qed
  next
    case (Storing b n d)
    obtain r \<sigma>2 where se: "SetEntryBundle (storage m) (bundle_Index b) (bundle_Partial b) d (env m) = (r, \<sigma>2)"
      by (cases "SetEntryBundle (storage m) (bundle_Index b) (bundle_Partial b) d (env m)")
    show ?thesis
    proof (cases r)
      case (Some err)
      with Storing lt se show ?thesis
        by (intro failed_attempt [of b n "ErrStore (bundle_Index b) (bundle_Partial b) err"
              "m\<lparr>env := \<sigma>2, trace := trace m @ [CallSetEntryBundle (bundle_Index b) (bundle_Partial b) d]\<rparr>"])
          (simp_all add: migrateWorker_def)
    next
      case None
      with Storing lt se
      have "snd (migrateWorker i (m, g)) = g\<lparr>workers := (workers g)[i := Receiving]\<rparr>"
        by (simp add: migrateWorker_def)
      with Storing show ?thesis by (intro moved [of Receiving]) simp_all
    qed
  next
    case (Returned r)
    with lt show ?thesis by (simp add: migrateWorker_def)
  qed
qed

lemma await_step_shape:
  "(awaited (snd (await_step (m, g))) = awaited g \<and> egErr (snd (await_step (m, g))) = egErr g \<and>
      rootVar (snd (await_step (m, g))) = rootVar g \<and>
      workers (snd (await_step (m, g))) = workers g) \<or>
   (awaited g = None \<and>
      ((\<exists>err. snd (await_step (m, g)) =
          egReturn (Some (ErrMigrationFailed err)) (g\<lparr>awaited := Some (Inl err)\<rparr>)) \<or>
       (\<exists>r. snd (await_step (m, g)) = egReturn None (g\<lparr>awaited := Some (Inr r), rootVar := r\<rparr>))))"
  by (auto simp: await_step_def split: option.splits prod.splits sum.splits)



subsection \<open>What the errgroup holds\<close>

lemma list_ex_failed_update:
  assumes "i < length ws" and "\<not> returned (ws ! i)"
  shows "list_ex failed (ws[i := w]) \<longleftrightarrow> failed w \<or> list_ex failed ws"
proof -
  from assms(2) have nf: "\<not> failed (ws ! i)"
    by (cases "ws ! i" rule: failed.cases) simp_all
  show ?thesis
  proof
    assume "list_ex failed (ws[i := w])"
    then obtain j where j: "j < length ws" "failed (ws[i := w] ! j)"
      by (auto simp: list_ex_length)
    show "failed w \<or> list_ex failed ws"
    proof (cases "j = i")
      case True
      with j assms(1) show ?thesis by simp
    next
      case False
      with j have "failed (ws ! j)" by simp
      with j(1) show ?thesis by (auto simp: list_ex_length)
    qed
  next
    assume "failed w \<or> list_ex failed ws"
    then show "list_ex failed (ws[i := w])"
    proof
      assume "failed w"
      with assms(1) have "i < length (ws[i := w])" "failed (ws[i := w] ! i)" by simp_all
      then show ?thesis unfolding list_ex_length by blast
    next
      assume "list_ex failed ws"
      then obtain j where j: "j < length ws" "failed (ws ! j)"
        by (auto simp: list_ex_length)
      with nf have "j \<noteq> i" by auto
      with j have "j < length (ws[i := w])" "failed (ws[i := w] ! j)" by simp_all
      then show ?thesis unfolding list_ex_length by blast
    qed
  qed
qed

lemma returned_not_failed: "\<not> returned w \<Longrightarrow> \<not> failed w"
  by (cases w rule: failed.cases) simp_all

lemma failed_Returned: "failed (Returned r) \<longleftrightarrow> r \<noteq> None"
  by (cases r) simp_all

lemma eg_inv_spawn: "eg_inv (spawn layoutRange numWorkers targetSize srcSize)"
  by (simp add: eg_inv_def spawn_def list_ex_iff)

lemma migrateWorker_eg_inv:
  assumes "eg_inv g"
  shows "eg_inv (snd (migrateWorker i (m, g)))"
proof -
  from migrateWorker_shape [of i m g]
  consider (stay) "snd (migrateWorker i (m, g)) = g"
    | (move) w where "i < length (workers g)" "\<not> returned (workers g ! i)" "\<not> returned w"
        "snd (migrateWorker i (m, g)) = g\<lparr>workers := (workers g)[i := w]\<rparr>"
    | (ret) r where "i < length (workers g)" "\<not> returned (workers g ! i)"
        "snd (migrateWorker i (m, g)) = egReturn r (g\<lparr>workers := (workers g)[i := Returned r]\<rparr>)"
    by blast
  then show ?thesis
  proof cases
    case stay
    with assms show ?thesis by simp
  next
    case move
    from move(1,2) have "list_ex failed ((workers g)[i := w]) = list_ex failed (workers g)"
      using returned_not_failed [OF move(3)] by (simp add: list_ex_failed_update)
    with assms move(4) show ?thesis by (simp add: eg_inv_def)
  next
    case ret
    from ret(1,2) have "list_ex failed ((workers g)[i := Returned r]) = (r \<noteq> None \<or> list_ex failed (workers g))"
      by (simp add: list_ex_failed_update failed_Returned)
    with assms ret(3) show ?thesis
      by (cases "egErr g"; cases r) (auto simp: eg_inv_def egReturn_def)
  qed
qed

lemma await_step_eg_inv:
  assumes "eg_inv g"
  shows "eg_inv (snd (await_step (m, g)))"
proof -
  let ?g = "snd (await_step (m, g))"
  from await_step_shape [of m g]
  consider (stay) "awaited ?g = awaited g" "egErr ?g = egErr g" "rootVar ?g = rootVar g"
      "workers ?g = workers g"
    | (err) err where "awaited g = None"
        "?g = egReturn (Some (ErrMigrationFailed err)) (g\<lparr>awaited := Some (Inl err)\<rparr>)"
    | (ok) r where "awaited g = None"
        "?g = egReturn None (g\<lparr>awaited := Some (Inr r), rootVar := r\<rparr>)"
    by blast
  then show ?thesis
  proof cases
    case stay
    with assms show ?thesis by (simp add: eg_inv_def)
  next
    case err
    with assms show ?thesis
      by (cases "egErr g") (simp_all add: eg_inv_def egReturn_def)
  next
    case ok
    with assms show ?thesis
      by (cases "egErr g") (simp_all add: eg_inv_def egReturn_def)
  qed
qed

lemma go_step_eg_inv:
  assumes "eg_inv (snd s)"
  shows "eg_inv (snd (go_step a s))"
proof (cases s)
  case (Pair m g)
  with assms have g: "eg_inv g" by simp
  show ?thesis
  proof (cases a)
    case PopulateWork
    with Pair g show ?thesis
      by (simp add: populateWork_step_def eg_inv_def split: list.splits)
  next
    case Stats
    with Pair g show ?thesis by (simp add: stats_step_def)
  next
    case (Worker i)
    with Pair migrateWorker_eg_inv [OF g] show ?thesis by simp
  next
    case Await
    with Pair await_step_eg_inv [OF g] show ?thesis by simp
  qed
qed

lemma go_run_eg_inv: "eg_inv (snd s) \<Longrightarrow> eg_inv (snd (go_run sched s))"
proof (induction sched arbitrary: s)
  case Nil
  then show ?case by simp
next
  case (Cons a sched)
  from Cons.IH [OF go_step_eg_inv [OF Cons.prems]] show ?case by simp
qed




subsection \<open>The cases of Migrate\<close>

lemma Migrate_no_chan:
  "\<not> makechan_ok chanLimit numWorkers \<Longrightarrow>
   Migrate chanLimit layoutRange sched numWorkers srcSize srcRoot fetch st \<sigma> =
     (Some Panic, newCopier srcSize srcRoot fetch st \<sigma>)"
  by (simp add: Migrate_def Let_def)

lemma Migrate_size_error:
  assumes "makechan_ok chanLimit numWorkers" and "IntegratedSize st \<sigma> = (Inl err, \<sigma>1)"
  shows "Migrate chanLimit layoutRange sched numWorkers srcSize srcRoot fetch st \<sigma> =
     (Some (Done (Some (ErrSize err))),
      (newCopier srcSize srcRoot fetch st \<sigma>1)\<lparr>trace := [CallIntegratedSize]\<rparr>)"
  using assms by (simp add: Migrate_def Let_def newCopier_def)

lemma Migrate_too_large:
  assumes "makechan_ok chanLimit numWorkers" and "IntegratedSize st \<sigma> = (Inr targetSize, \<sigma>1)"
    and "targetSize > srcSize"
  shows "Migrate chanLimit layoutRange sched numWorkers srcSize srcRoot fetch st \<sigma> =
     (Some (Done (Some (ErrTargetSize targetSize srcSize))),
      (newCopier srcSize srcRoot fetch st \<sigma>1)\<lparr>trace := [CallIntegratedSize]\<rparr>)"
  using assms by (simp add: Migrate_def Let_def newCopier_def)

lemma start_config:
  "storage (fst (start layoutRange numWorkers srcSize srcRoot fetch st targetSize \<sigma>1)) = st"
  "sourceRoot (fst (start layoutRange numWorkers srcSize srcRoot fetch st targetSize \<sigma>1)) = srcRoot"
  "sourceSize (fst (start layoutRange numWorkers srcSize srcRoot fetch st targetSize \<sigma>1)) = srcSize"
  "getEntries (fst (start layoutRange numWorkers srcSize srcRoot fetch st targetSize \<sigma>1)) = fetch"
  by (simp_all add: start_def newCopier_def)

lemma go_run_start_config:
  assumes "go_run sched (start layoutRange numWorkers srcSize srcRoot fetch st targetSize \<sigma>1) = (m2, g)"
  shows "storage m2 = st" and "sourceRoot m2 = srcRoot" and "sourceSize m2 = srcSize"
    and "getEntries m2 = fetch"
  using go_run_config [of sched "start layoutRange numWorkers srcSize srcRoot fetch st targetSize \<sigma>1"]
    assms
  by (simp_all add: same_config_def start_config)

lemma go_run_start_eg_inv:
  assumes "go_run sched (start layoutRange numWorkers srcSize srcRoot fetch st targetSize \<sigma>1) = (m2, g)"
  shows "eg_inv g"
  using go_run_eg_inv [of "start layoutRange numWorkers srcSize srcRoot fetch st targetSize \<sigma>1" sched]
    assms
  by (simp add: start_def eg_inv_spawn)


lemma Migrate_copy:
  assumes nw: "makechan_ok chanLimit numWorkers"
    and sz: "IntegratedSize st \<sigma> = (Inr targetSize, \<sigma>1)"
    and le: "targetSize \<le> srcSize"
    and rw: "go_run sched (start layoutRange numWorkers srcSize srcRoot fetch st targetSize \<sigma>1) = (m2, g)"
  shows "Migrate chanLimit layoutRange sched numWorkers srcSize srcRoot fetch st \<sigma> =
     (if waitDone g
      then (case egErr g of
              Some err \<Rightarrow> Some (Done (Some (ErrMigrationFailed err)))
            | None \<Rightarrow>
                if rootVar g \<noteq> srcRoot then Some (Done (Some (ErrRootMismatch (rootVar g) srcRoot)))
                else Some (Done None))
      else None, m2)"
proof -
  have m1: "(newCopier srcSize srcRoot fetch st \<sigma>)\<lparr>env := \<sigma>1, trace := [CallIntegratedSize]\<rparr>
      = (newCopier srcSize srcRoot fetch st \<sigma>1)\<lparr>trace := [CallIntegratedSize]\<rparr>"
    by (simp add: newCopier_def)
  have st: "storage (newCopier srcSize srcRoot fetch st \<sigma>) = st"
      "env (newCopier srcSize srcRoot fetch st \<sigma>) = \<sigma>"
    by (simp_all add: newCopier_def)
  from le have nle: "\<not> srcSize < targetSize" by simp
  show ?thesis
    unfolding Migrate_def Let_def st
    using nw sz nle rw [unfolded start_def]
    by (simp add: m1 go_run_start_config(2) [OF rw] split: option.splits)
qed



text \<open>
  The error of a worker that has given up reaches the caller when all goroutines of the group
  have returned; until then \<open>Migrate\<close> waits.
\<close>

lemma Migrate_worker_error:
  assumes "makechan_ok chanLimit numWorkers" and "IntegratedSize st \<sigma> = (Inr targetSize, \<sigma>1)"
    and "targetSize \<le> srcSize"
    and "go_run sched (start layoutRange numWorkers srcSize srcRoot fetch st targetSize \<sigma>1) = (m2, g)"
    and "list_ex failed (workers g)"
  shows "\<exists>e. egErr g = Some e \<and>
     fst (Migrate chanLimit layoutRange sched numWorkers srcSize srcRoot fetch st \<sigma>) =
       (if waitDone g then Some (Done (Some (ErrMigrationFailed e))) else None)"
proof -
  from go_run_start_eg_inv [OF assms(4)] assms(5) obtain e where "egErr g = Some e"
    by (cases "egErr g") (auto simp: eg_inv_def)
  with Migrate_copy [OF assms(1-4)] show ?thesis by simp
qed

subsection \<open>Once Migrate has returned\<close>

lemma go_run_append: "go_run (xs @ ys) s = go_run ys (go_run xs s)"
  by (induction xs arbitrary: s) simp_all

lemma go_step_done:
  assumes "waitDone g"
  shows "workers (snd (go_step a (m, g))) = workers g \<and> awaited (snd (go_step a (m, g))) = awaited g \<and>
     egErr (snd (go_step a (m, g))) = egErr g \<and> rootVar (snd (go_step a (m, g))) = rootVar g"
proof (cases a)
  case PopulateWork
  then show ?thesis by (simp add: populateWork_step_def split: list.splits)
next
  case Stats
  then show ?thesis by (simp add: stats_step_def)
next
  case (Worker i)
  have "snd (migrateWorker i (m, g)) = g"
  proof (cases "i < length (workers g)")
    case True
    with assms have "returned (workers g ! i)" by (simp add: waitDone_def list_all_length)
    with migrateWorker_shape [of i m g] show ?thesis by blast
  next
    case False
    then show ?thesis by (simp add: migrateWorker_def)
  qed
  with Worker show ?thesis by simp
next
  case Await
  from assms have "awaited g \<noteq> None" by (simp add: waitDone_def)
  with await_step_shape [of m g] Await show ?thesis by auto
qed

lemma go_run_done:
  "waitDone (snd s) \<Longrightarrow>
     workers (snd (go_run sched s)) = workers (snd s) \<and> awaited (snd (go_run sched s)) = awaited (snd s) \<and>
     egErr (snd (go_run sched s)) = egErr (snd s) \<and> rootVar (snd (go_run sched s)) = rootVar (snd s)"
proof (induction sched arbitrary: s)
  case Nil
  then show ?case by simp
next
  case (Cons a sched)
  obtain m g where s: "s = (m, g)" by (cases s)
  from go_step_done [of g a m] Cons.prems s
  have eq: "workers (snd (go_step a s)) = workers (snd s)" "awaited (snd (go_step a s)) = awaited (snd s)"
    "egErr (snd (go_step a s)) = egErr (snd s)" "rootVar (snd (go_step a s)) = rootVar (snd s)"
    by simp_all
  with Cons.prems have "waitDone (snd (go_step a s))" by (simp add: waitDone_def)
  from Cons.IH [OF this] eq show ?case by simp
qed

text \<open>What \<open>Migrate\<close> has returned at the end of a schedule, it has returned at the end of
  every longer one.\<close>

lemma Migrate_returned:
  assumes "fst (Migrate chanLimit layoutRange sched numWorkers srcSize srcRoot fetch st \<sigma>) = Some r"
  shows "fst (Migrate chanLimit layoutRange (sched @ sched2) numWorkers srcSize srcRoot fetch st \<sigma>) = Some r"
proof (cases "makechan_ok chanLimit numWorkers")
  case False
  with assms show ?thesis by (simp add: Migrate_no_chan)
next
  case nw: True
  obtain x \<sigma>1 where sz: "IntegratedSize st \<sigma> = (x, \<sigma>1)" by (cases "IntegratedSize st \<sigma>")
  show ?thesis
  proof (cases x)
    case (Inl err)
    with sz assms nw show ?thesis by (simp add: Migrate_size_error)
  next
    case (Inr targetSize)
    with sz have sz': "IntegratedSize st \<sigma> = (Inr targetSize, \<sigma>1)" by simp
    show ?thesis
    proof (cases "targetSize > srcSize")
      case True
      with assms nw sz' show ?thesis by (simp add: Migrate_too_large)
    next
      case False
      then have le: "targetSize \<le> srcSize" by simp
      let ?s = "start layoutRange numWorkers srcSize srcRoot fetch st targetSize \<sigma>1"
      obtain m2 g where rw: "go_run sched ?s = (m2, g)" by (cases "go_run sched ?s")
      obtain m3 g' where rw': "go_run (sched @ sched2) ?s = (m3, g')"
        by (cases "go_run (sched @ sched2) ?s")
      from Migrate_copy [OF nw sz' le rw] assms have wd: "waitDone g"
        by (auto split: if_splits)
      from rw rw' have "g' = snd (go_run sched2 (m2, g))" by (simp add: go_run_append)
      with go_run_done [of "(m2, g)" sched2] wd
      have eq: "workers g' = workers g" "awaited g' = awaited g" "egErr g' = egErr g"
        "rootVar g' = rootVar g"
        by simp_all
      have "fst (Migrate chanLimit layoutRange (sched @ sched2) numWorkers srcSize srcRoot fetch st \<sigma>) =
          fst (Migrate chanLimit layoutRange sched numWorkers srcSize srcRoot fetch st \<sigma>)"
        unfolding Migrate_copy [OF nw sz' le rw] Migrate_copy [OF nw sz' le rw'] fst_conv
          waitDone_def eq
        by (rule refl)
      with assms show ?thesis by simp
    qed
  qed
qed



subsection \<open>Retrying\<close>

text \<open>
  A failed attempt is followed by a wait that doubles each time and by a new attempt, nine
  times; the failure of the tenth attempt makes the worker return that attempt's error.
\<close>

lemma attemptFailed_eq:
  "attemptFailed i b n wErr (m, g) =
     (if n < 9
      then (m\<lparr>trace := trace m @ [Sleep (2 ^ n)]\<rparr>, g\<lparr>workers := (workers g)[i := Fetching b (Suc n)]\<rparr>)
      else (m, egReturn (Some wErr) (g\<lparr>workers := (workers g)[i := Returned (Some wErr)]\<rparr>)))"
  by (simp add: attemptFailed_def retry_next_def BackOffDelay_def)

lemma fetch_failed:
  assumes "i < length (workers g)" and "workers g ! i = Fetching b n"
    and "getEntries m (bundle_Index b) (bundle_Partial b) (env m) = (Inl err, \<sigma>1)"
  shows "migrateWorker i (m, g) =
     attemptFailed i b n (ErrFetch (bundle_Index b) (bundle_Partial b) err)
       (m\<lparr>env := \<sigma>1, trace := trace m @ [CallGetEntries (bundle_Index b) (bundle_Partial b)]\<rparr>, g)"
  using assms by (simp add: migrateWorker_def)

lemma store_failed:
  assumes "i < length (workers g)" and "workers g ! i = Storing b n d"
    and "SetEntryBundle (storage m) (bundle_Index b) (bundle_Partial b) d (env m) = (Some err, \<sigma>2)"
  shows "migrateWorker i (m, g) =
     attemptFailed i b n (ErrStore (bundle_Index b) (bundle_Partial b) err)
       (m\<lparr>env := \<sigma>2, trace := trace m @ [CallSetEntryBundle (bundle_Index b) (bundle_Partial b) d]\<rparr>, g)"
  using assms by (simp add: migrateWorker_def)

text \<open>No bundle is tried more than ten times.\<close>

lemma attempts_update:
  assumes "list_all (\<lambda>w. attempts_made w \<le> 10) ws" and "attempts_made w \<le> 10"
  shows "list_all (\<lambda>w. attempts_made w \<le> 10) (ws[i := w])"
  using assms set_update_subset_insert [of ws i w] by (auto simp: list_all_iff)

lemma migrateWorker_attempts:
  assumes "list_all (\<lambda>w. attempts_made w \<le> 10) (workers g)"
  shows "list_all (\<lambda>w. attempts_made w \<le> 10) (workers (snd (migrateWorker i (m, g))))"
proof (cases "i < length (workers g)")
  case False
  with assms show ?thesis by (simp add: migrateWorker_def)
next
  case lt: True
  with assms have old: "attempts_made (workers g ! i) \<le> 10" by (simp add: list_all_length)
  have failed_attempt: "list_all (\<lambda>w. attempts_made w \<le> 10)
      (workers (snd (attemptFailed i b n wErr (m', g))))" if "Suc n \<le> 10"
    for b n wErr and m' :: "'a copier"
    using that assms by (auto simp: attemptFailed_eq egReturn_def intro!: attempts_update)
  show ?thesis
  proof (cases "workers g ! i")
    case Receiving
    with lt assms show ?thesis
      by (auto simp: migrateWorker_def egReturn_def intro!: attempts_update split: list.splits)
  next
    case (Fetching b n)
    with old have n: "Suc n \<le> 10" by simp
    obtain r \<sigma>1 where ge: "getEntries m (bundle_Index b) (bundle_Partial b) (env m) = (r, \<sigma>1)"
      by (cases "getEntries m (bundle_Index b) (bundle_Partial b) (env m)")
    show ?thesis
    proof (cases r)
      case (Inl err)
      with ge have "getEntries m (bundle_Index b) (bundle_Partial b) (env m) = (Inl err, \<sigma>1)" by simp
      from fetch_failed [OF lt Fetching this] failed_attempt [OF n] show ?thesis by simp
    next
      case (Inr d)
      with Fetching lt ge n assms show ?thesis
        by (auto simp: migrateWorker_def intro!: attempts_update)
    qed
  next
    case (Storing b n d)
    with old have n: "Suc n \<le> 10" by simp
    obtain r \<sigma>2 where se: "SetEntryBundle (storage m) (bundle_Index b) (bundle_Partial b) d (env m) = (r, \<sigma>2)"
      by (cases "SetEntryBundle (storage m) (bundle_Index b) (bundle_Partial b) d (env m)")
    show ?thesis
    proof (cases r)
      case (Some err)
      with se have "SetEntryBundle (storage m) (bundle_Index b) (bundle_Partial b) d (env m) = (Some err, \<sigma>2)"
        by simp
      from store_failed [OF lt Storing this] failed_attempt [OF n] show ?thesis by simp
    next
      case None
      with Storing lt se assms show ?thesis
        by (auto simp: migrateWorker_def intro!: attempts_update)
    qed
  next
    case (Returned r)
    with lt assms show ?thesis by (simp add: migrateWorker_def)
  qed
qed

lemma go_step_attempts:
  assumes "list_all (\<lambda>w. attempts_made w \<le> 10) (workers (snd s))"
  shows "list_all (\<lambda>w. attempts_made w \<le> 10) (workers (snd (go_step a s)))"
proof (cases s)
  case (Pair m g)
  show ?thesis
  proof (cases a)
    case PopulateWork
    with Pair assms show ?thesis by (simp add: populateWork_step_def split: list.splits)
  next
    case Stats
    with Pair assms show ?thesis by (simp add: stats_step_def)
  next
    case (Worker i)
    with Pair assms migrateWorker_attempts [of g i m] show ?thesis by simp
  next
    case Await
    with Pair assms await_step_shape [of m g] show ?thesis by (auto simp: egReturn_def)
  qed
qed

lemma go_run_attempts:
  "list_all (\<lambda>w. attempts_made w \<le> 10) (workers (snd s)) \<Longrightarrow>
     list_all (\<lambda>w. attempts_made w \<le> 10) (workers (snd (go_run sched s)))"
proof (induction sched arbitrary: s)
  case Nil
  then show ?case by simp
next
  case (Cons a sched)
  from Cons.IH [OF go_step_attempts [OF Cons.prems]] show ?case by simp
qed

lemma Migrate_attempts:
  "list_all (\<lambda>w. attempts_made w \<le> 10)
     (workers (snd (go_run sched (start layoutRange numWorkers srcSize srcRoot fetch st targetSize \<sigma>1))))"
  by (rule go_run_attempts) (simp add: start_def spawn_def list_all_length)

text \<open>
  A bundle is counted only by the step in which \<open>SetEntryBundle\<close> succeeds, on bytes that
  this worker has fetched in the same attempt.
\<close>

lemma go_step_migrated:
  "bundlesMigrated (fst (go_step a (m, g))) =
     bundlesMigrated m +
       (if \<exists>i b n d \<sigma>2. a = Worker i \<and> i < length (workers g) \<and> workers g ! i = Storing b n d \<and>
             SetEntryBundle (storage m) (bundle_Index b) (bundle_Partial b) d (env m) = (None, \<sigma>2)
        then 1 else 0)"
proof (cases a)
  case PopulateWork
  then show ?thesis by (simp add: populateWork_step_def split: list.splits)
next
  case Stats
  then show ?thesis by (simp add: stats_step_def)
next
  case Await
  then show ?thesis by (simp add: await_step_def split: option.splits prod.splits sum.splits)
next
  case (Worker i)
  show ?thesis
  proof (cases "i < length (workers g)")
    case False
    with Worker show ?thesis by (simp add: migrateWorker_def)
  next
    case lt: True
    show ?thesis
    proof (cases "workers g ! i")
      case Receiving
      with Worker lt show ?thesis by (simp add: migrateWorker_def split: list.splits)
    next
      case (Fetching b n)
      with Worker lt show ?thesis
        by (simp add: migrateWorker_def attemptFailed_eq split: prod.splits sum.splits)
    next
      case (Storing b n d)
      with Worker lt show ?thesis
        by (simp add: migrateWorker_def attemptFailed_eq split: prod.splits option.splits)
    next
      case (Returned r)
      with Worker lt show ?thesis by (simp add: migrateWorker_def)
    qed
  qed
qed

lemma stored_after_fetch:
  assumes "i < length (workers g)" and "workers (snd (migrateWorker i (m, g))) ! i = Storing b n d"
    and "workers g ! i \<noteq> Storing b n d"
  shows "\<exists>\<sigma>1. workers g ! i = Fetching b n \<and>
     getEntries m (bundle_Index b) (bundle_Partial b) (env m) = (Inr d, \<sigma>1)"
proof (cases "workers g ! i")
  case Receiving
  with assms show ?thesis by (simp add: migrateWorker_def egReturn_def split: list.splits if_splits)
next
  case (Fetching b' n')
  with assms show ?thesis
    by (auto simp: migrateWorker_def attemptFailed_eq egReturn_def
        split: prod.splits sum.splits if_splits)
next
  case (Storing b' n' d')
  with assms show ?thesis
    by (auto simp: migrateWorker_def attemptFailed_eq egReturn_def
        split: prod.splits option.splits if_splits)
next
  case (Returned r)
  with assms show ?thesis by (simp add: migrateWorker_def)
qed



subsection \<open>The small sources and targets\<close>

lemma start_fail:
  "start exRange 1 1 rootW fetchFail (exStorage 0 rootW) 0 0 =
     (\<lparr>storage = exStorage 0 rootW, getEntries = fetchFail, sourceSize = 1, sourceRoot = rootW,
       todo = [], bundlesMigrated = 0, env = 0, trace = [CallIntegratedSize]\<rparr>,
      \<lparr>toSend = [\<lparr>bundle_Index = 0, bundle_Partial = 1\<rparr>], todoClosed = False, todoCap = 1,
       statsOn = True, workers = [Receiving], awaited = None, egErr = None, rootVar = []\<rparr>)"
  by (simp add: start_def spawn_def newCopier_def populateWork_def exRange_def
      EntryBundleWidth_def)

lemma run_fail:
  "workers gFail = [Returned (Some (ErrFetch 0 1 (Error ''unavailable'')))]"
  "egErr gFail = Some (ErrFetch 0 1 (Error ''unavailable''))"
  "length (filter is_fetch (trace mFail)) = 10"
  "filter is_sleep (trace mFail) = map Sleep [1, 2, 4, 8, 16, 32, 64, 128, 256]"
  "bundlesMigrated mFail = 0" "env mFail = 0"
  unfolding mFail_def gFail_def start_fail schedFail_def
  by (simp_all add: populateWork_step_def migrateWorker_def attemptFailed_eq fetchFail_def
      egReturn_def)

lemma storing_update:
  assumes "list_ex storing (ws[i := w])" and "\<not> storing w"
  shows "list_ex storing ws"
  using assms set_update_subset_insert [of ws i w] by (auto simp: list_ex_iff)

lemma go_step_never_stored:
  assumes "never_stored s"
  shows "never_stored (go_step a s)"
proof (cases s)
  case (Pair m g)
  with assms have inv: "getEntries m = fetchFail" "storage m = exStorage 0 rootW"
    "sourceSize m = 1" "env m = 0" "awaited g = None" "\<not> list_ex storing (workers g)"
    by (simp_all add: never_stored_def)
  show ?thesis
  proof (cases a)
    case PopulateWork
    with Pair inv show ?thesis
      by (simp add: never_stored_def populateWork_step_def split: list.splits)
  next
    case Stats
    with Pair inv show ?thesis
      by (simp add: never_stored_def stats_step_def exStorage_def)
  next
    case Await
    with Pair inv show ?thesis
      by (simp add: never_stored_def await_step_def exStorage_def)
  next
    case (Worker i)
    show ?thesis
    proof (cases "i < length (workers g)")
      case False
      with Worker Pair assms show ?thesis by (simp add: migrateWorker_def)
    next
      case lt: True
      show ?thesis
      proof (cases "workers g ! i")
        case Receiving
        with Worker Pair lt inv show ?thesis
          by (auto simp: never_stored_def migrateWorker_def egReturn_def
              dest: storing_update split: list.splits)
      next
        case (Fetching b n)
        with Worker Pair lt inv show ?thesis
          by (auto simp: never_stored_def migrateWorker_def attemptFailed_eq egReturn_def
              fetchFail_def dest: storing_update)
      next
        case (Storing b n d)
        with lt nth_mem [of i "workers g"]
        have "storing (workers g ! i)" "workers g ! i \<in> set (workers g)" by simp_all
        with inv(6) show ?thesis by (auto simp: list_ex_iff)
      next
        case (Returned r)
        with Worker Pair lt assms show ?thesis by (simp add: migrateWorker_def)
      qed
    qed
  qed
qed

lemma go_run_never_stored: "never_stored s \<Longrightarrow> never_stored (go_run sched s)"
proof (induction sched arbitrary: s)
  case Nil
  then show ?case by simp
next
  case (Cons a sched)
  from Cons.IH [OF go_step_never_stored [OF Cons.prems]] show ?case by simp
qed

lemma Migrate_fail_blocks:
  "fst (Migrate 1024 exRange sched 1 1 rootW fetchFail (exStorage 0 rootW) 0) = None"
proof -
  let ?s = "start exRange 1 1 rootW fetchFail (exStorage 0 rootW) 0 0"
  obtain m2 g where rw: "go_run sched ?s = (m2, g)" by (cases "go_run sched ?s")
  have "never_stored ?s"
    unfolding start_fail by (simp add: never_stored_def)
  from go_run_never_stored [OF this, of sched] rw have "awaited g = None"
    by (simp add: never_stored_def)
  then have nd: "\<not> waitDone g" by (simp add: waitDone_def)
  have nw: "makechan_ok 1024 1" by (simp add: makechan_ok_def)
  have sz: "IntegratedSize (exStorage 0 rootW) 0 = (Inr 0, 0)" by (simp add: exStorage_def)
  have le: "(0 :: uint64) \<le> 1" by simp
  from Migrate_copy [OF nw sz le rw] nd show ?thesis by simp
qed




text \<open>
  With the source whose first ten calls fail, whether \<open>Migrate\<close> returns depends on how the
  workers interleave: when they share the failures, both bundles are copied and \<open>Migrate\<close>
  returns nil; when the first worker meets all ten, it gives up on its bundle, and the
  integration wait has not returned when the second worker has copied the other one.
\<close>

lemma Migrate_shared_failures:
  "fst (Migrate 1024 exRange2 schedShared 2 257 rootW fetchFlaky (flakyStorage rootW) (0, 0)) =
     Some (Done None)"
  by (simp add: Migrate_def Let_def makechan_ok_def newCopier_def spawn_def populateWork_def
      exRange2_def EntryBundleWidth_def numeral_2_eq_2 schedShared_def flakyStorage_def
      fetchFlaky_def populateWork_step_def await_step_def migrateWorker_def attemptFailed_eq
      egReturn_def waitDone_def rootW_def)

lemma Migrate_failures_alone:
  "fst (Migrate 1024 exRange2 schedAlone 2 257 rootW fetchFlaky (flakyStorage rootW) (0, 0)) = None"
  "workers (snd (go_run schedAlone
      (start exRange2 2 257 rootW fetchFlaky (flakyStorage rootW) 0 (0, 0)))) =
     [Returned (Some (ErrFetch 0 0 (Error ''unavailable''))), Returned None]"
  by (simp_all add: Migrate_def Let_def makechan_ok_def newCopier_def start_def spawn_def
      populateWork_def exRange2_def EntryBundleWidth_def numeral_2_eq_2 schedAlone_def
      flakyStorage_def fetchFlaky_def populateWork_step_def await_step_def migrateWorker_def
      attemptFailed_eq egReturn_def waitDone_def rootW_def)



subsection \<open>Success of a migration (C4)\<close>



subsection \<open>A target ahead of the source (C7)\<close>

text \<open>
  Claim C7, as stated: for every call of \<open>Migrate\<close>, if the target's integrated size is
  greater than the source size, \<open>Migrate\<close> returns an error before any copy work. It fails
  for a \<open>numWorkers\<close> that \<open>make(chan bundle, numWorkers)\<close> does not accept, a negative one
  or one too large: \<open>make\<close> panics while the copier is built, before the size is read, and
  \<open>Migrate\<close> returns nothing.
\<close>

theorem Migrate_bad_workers_counterexample:
  "IntegratedSize (exStorage 5 rootW) 0 = (Inr 5, 0) \<and> (5 :: uint64) > 3 \<and>
   fst (Migrate 1024 exRange [] (- 1) 3 rootW fetchOk (exStorage 5 rootW) 0) = Some Panic \<and>
   fst (Migrate (2 ^ 62) exRange [] (2 ^ 62) 3 rootW fetchOk (exStorage 5 rootW) 0) = Some Panic"
  by (simp add: exStorage_def Migrate_def Let_def makechan_ok_def)

text \<open>
  Claim C7, amended: for every call of \<open>Migrate\<close> in which \<open>make(chan bundle, numWorkers)\<close>
  succeeds (\<open>numWorkers\<close> is not negative and not beyond what the runtime can allocate), if
  \<open>IntegratedSize\<close> returns a size greater than the source size, \<open>Migrate\<close> returns the
  error \<open>target size > source size\<close>, whatever the schedule, having made no call but
  \<open>IntegratedSize\<close>: no goroutine was started, nothing was enqueued, nothing fetched,
  \<open>SetEntryBundle\<close> was not called and no bundle counted.
\<close>

theorem Migrate_target_larger:
  assumes "makechan_ok chanLimit numWorkers" and "IntegratedSize st \<sigma> = (Inr targetSize, \<sigma>1)"
    and "targetSize > srcSize"
  shows "\<exists>m. Migrate chanLimit layoutRange sched numWorkers srcSize srcRoot fetch st \<sigma> =
       (Some (Done (Some (ErrTargetSize targetSize srcSize))), m) \<and>
     trace m = [CallIntegratedSize] \<and> todo m = [] \<and> bundlesMigrated m = 0"
  using Migrate_too_large [OF assms, of layoutRange sched srcRoot fetch]
  by (simp add: newCopier_def)

theorem Migrate_target_larger_witness:
  "makechan_ok 1024 2 \<and> IntegratedSize (exStorage 5 rootW) 0 = (Inr 5, 0) \<and> (5 :: uint64) > 3 \<and>
   fst (Migrate 1024 exRange schedOk 2 3 rootW fetchOk (exStorage 5 rootW) 0) =
     Some (Done (Some (ErrTargetSize 5 3))) \<and>
   trace (snd (Migrate 1024 exRange schedOk 2 3 rootW fetchOk (exStorage 5 rootW) 0)) = [CallIntegratedSize] \<and>
   todo (snd (Migrate 1024 exRange schedOk 2 3 rootW fetchOk (exStorage 5 rootW) 0)) = []"
proof -
  have nw: "makechan_ok 1024 2" by (simp add: makechan_ok_def)
  have sz: "IntegratedSize (exStorage 5 rootW) 0 = (Inr 5, 0)"
    by (simp add: exStorage_def)
  have gt: "(5 :: uint64) > 3" by simp
  from Migrate_target_larger [OF nw sz gt, of exRange schedOk rootW fetchOk] nw sz gt
  show ?thesis by auto
qed

subsection \<open>A worker that gives up (C8)\<close>

text \<open>
  Claim C8 says that a bundle is tried at most 10 times with exponential backoff, that a
  worker returns the final error when every attempt has failed, that \<open>Migrate\<close> then
  surfaces an error, and that a bundle is counted only when fetch and store have both
  succeeded. The lemmas above prove all of it but one point (\<open>Migrate_attempts\<close>,
  \<open>attemptFailed_eq\<close> with \<open>fetch_failed\<close> and \<open>store_failed\<close>, \<open>go_step_migrated\<close>
  with \<open>stored_after_fetch\<close>): the error reaches the caller only once \<open>AwaitIntegration\<close>
  has returned (\<open>Migrate_worker_error\<close>), because \<open>eg.Wait()\<close> waits for that goroutine
  too and nothing cancels it. Here is a call in which it never does: one worker, a source of
  one leaf whose bundle cannot be fetched, and a target whose \<open>AwaitIntegration\<close> waits, as
  documented, until that bundle is integrated. In the run \<open>schedFail\<close> the worker makes 10
  attempts, waiting 1, 2, 4, ..., 256 units in between, counts nothing and returns the fetch
  error, which the \<open>errgroup\<close> keeps; \<open>AwaitIntegration\<close> goes on waiting; and at the end
  of no schedule at all has \<open>Migrate\<close> returned.
\<close>

theorem Migrate_worker_error_blocked:
  "workers gFail = [Returned (Some (ErrFetch 0 1 (Error ''unavailable'')))] \<and>
   egErr gFail = Some (ErrFetch 0 1 (Error ''unavailable'')) \<and>
   length (filter is_fetch (trace mFail)) = 10 \<and>
   filter is_sleep (trace mFail) = map Sleep [1, 2, 4, 8, 16, 32, 64, 128, 256] \<and>
   bundlesMigrated mFail = 0 \<and>
   fst (AwaitIntegration (exStorage 0 rootW) 1 (env mFail)) = None \<and>
   (\<forall>sched. fst (Migrate 1024 exRange sched 1 1 rootW fetchFail (exStorage 0 rootW) 0) = None)"
proof -
  have aw: "fst (AwaitIntegration (exStorage 0 rootW) 1 (env mFail)) = None"
    by (simp add: run_fail exStorage_def)
  with run_fail Migrate_fail_blocks show ?thesis by simp
qed


section \<open>Properties of the tile read API\<close>

lemma tileHandler_found:
  "parse level index = Inr (l, i, width) \<Longrightarrow> ReadTile l i width = Inr (Some tile) \<Longrightarrow>
   tileHandler parse ReadTile level index =
     \<lparr>status = 200,
      header = [''Cache-Control'' \<mapsto> ''public, max-age=31536000, immutable''],
      body = Bytes tile\<rparr>"
  by (simp add: tileHandler_def)

lemma tileHandler_status_200_iff:
  "status (tileHandler parse ReadTile level index) = 200 \<longleftrightarrow>
     (\<exists>l i width tile. parse level index = Inr (l, i, width) \<and>
        ReadTile l i width = Inr (Some tile))"
  by (auto simp: tileHandler_def split: sum.splits option.splits prod.splits)

lemma tileHandler_header:
  "header (tileHandler parse ReadTile level index) ''Cache-Control'' =
     (if status (tileHandler parse ReadTile level index) = 200
      then Some ''public, max-age=31536000, immutable'' else None)"
  by (simp add: tileHandler_def split: sum.splits option.splits prod.splits)

text \<open>
  Claim C6, as stated: a successful reply carries the immutable \<open>Cache-Control\<close> header only
  when the requested tile is complete, and for a partial tile the header is not set. A
  partial tile is one requested with a width other than 0 (the \<open>.p/{partial}\<close> suffix of the
  path; 0 stands for a complete tile of 256). The handler does not look at the width: a
  partial tile of width 5 that the storage finds is sent with the header.
\<close>

theorem tile_partial_cache_header_counterexample:
  "(5 :: uint8) \<noteq> 0 \<and>
   status (tileHandler (\<lambda>level index. Inr (0, 0, 5)) (\<lambda>l i width. Inr (Some [1, 2, 3]))
     ''0'' ''000.p/5'') = 200 \<and>
   header (tileHandler (\<lambda>level index. Inr (0, 0, 5)) (\<lambda>l i width. Inr (Some [1, 2, 3]))
     ''0'' ''000.p/5'') ''Cache-Control'' = Some ''public, max-age=31536000, immutable''"
  by (simp add: tileHandler_def)

text \<open>
  Claim C6, amended: every reply to \<^verbatim>\<open>GET /tile/{level}/{index}\<close> that succeeds (the URL
  parses and the storage finds the tile: status 200) carries the header
  \<open>Cache-Control: public, max-age=31536000, immutable\<close>, whatever the width, for a partial
  tile as for a complete one; the replies 400, 404 and 500 do not carry it.
\<close>

theorem tile_cache_header:
  "(status (tileHandler parse ReadTile level index) = 200 \<longleftrightarrow>
      (\<exists>l i width tile. parse level index = Inr (l, i, width) \<and>
         ReadTile l i width = Inr (Some tile))) \<and>
   header (tileHandler parse ReadTile level index) ''Cache-Control'' =
     (if status (tileHandler parse ReadTile level index) = 200
      then Some ''public, max-age=31536000, immutable'' else None) \<and>
   status (tileHandler parse ReadTile level index) \<in> {200, 400, 404, 500}"
proof (intro conjI)
  show "status (tileHandler parse ReadTile level index) = 200 \<longleftrightarrow>
      (\<exists>l i width tile. parse level index = Inr (l, i, width) \<and>
         ReadTile l i width = Inr (Some tile))"
    by (rule tileHandler_status_200_iff)
  show "header (tileHandler parse ReadTile level index) ''Cache-Control'' =
     (if status (tileHandler parse ReadTile level index) = 200
      then Some ''public, max-age=31536000, immutable'' else None)"
    by (rule tileHandler_header)
  show "status (tileHandler parse ReadTile level index) \<in> {200, 400, 404, 500}"
    by (simp add: tileHandler_def split: sum.splits option.splits prod.splits)
qed

end
